theory Spec2Isabelle
  imports Complex_Main "HOL-Library.Log_Nat" "HOL-Library.Code_Target_Numeral"
begin

section \<open>Exceptions\<close>

text \<open>
  The failure categories with which \<^verbatim>\<open>fetch_transcript\<close> raises \<^verbatim>\<open>RuntimeError\<close>; each
  stands for one of its five messages (transcripts disabled, video unavailable,
  not a valid video ID, YouTube is blocking requests, could not fetch any
  transcript).
\<close>

datatype fetch_error = Disabled | Unavailable | InvalidId | Blocked | NoCaptions

text \<open>
  The exceptions of \<^verbatim>\<open>youtube_transcript_api\<close> that \<^verbatim>\<open>index.py\<close> imports; \<open>OtherError\<close>
  is any other exception a call of the library raises (a network error, say). The
  imported classes are taken to be what the library documents: none of the first
  five is a subclass of another one, and \<open>IpBlocked\<close> only occurs in the same
  \<^verbatim>\<open>except\<close> clause as \<open>RequestBlocked\<close>.
\<close>

datatype provider_error =
    NoTranscriptFound
  | TranscriptsDisabled
  | VideoUnavailable
  | InvalidVideoId
  | RequestBlocked
  | IpBlocked
  | OtherError string

text \<open>A raised Python exception, as far as the program tells them apart.\<close>

datatype exn =
    ValueError
  | RuntimeError fetch_error
  | ProviderError provider_error
  | OSError
  | UnicodeDecodeError
  | AttributeError
  | TypeError
  | OverflowError

section \<open>Strings, lines and whitespace\<close>

text \<open>
  Python strings are modelled as \<^typ>\<open>string\<close>; one \<^typ>\<open>char\<close> stands for one
  code point below 256. The three utilities only look at ASCII characters (the
  newline, the identifier alphabet, digits and whitespace), every other character
  is passed through unchanged.
\<close>

abbreviation newline :: char where
  "newline \<equiv> CHR 0x0A"

text \<open>\<^verbatim>\<open>s.split("\n")\<close>: the pieces between the newlines; never the empty list.\<close>

fun split_lines :: "string \<Rightarrow> string list" where
  "split_lines [] = [[]]"
| "split_lines (c # cs) =
     (if c = newline then [] # split_lines cs
      else (case split_lines cs of [] \<Rightarrow> [[c]] | l # ls \<Rightarrow> (c # l) # ls))"

text \<open>\<^verbatim>\<open>"\n".join(ls)\<close>.\<close>

fun join_lines :: "string list \<Rightarrow> string" where
  "join_lines [] = []"
| "join_lines [l] = l"
| "join_lines (l # l' # ls) = l @ newline # join_lines (l' # ls)"

section \<open>utils/chunk\_transcript.py\<close>

text \<open>
  The body of the \<^verbatim>\<open>for line in lines\<close> loop and the final flush. The three
  local variables \<^verbatim>\<open>chunks\<close>, \<^verbatim>\<open>current_chunk\<close> and \<^verbatim>\<open>current_length\<close> are passed
  along; a Python list is truthy exactly when it is not \<open>[]\<close>.
\<close>

fun chunk_loop :: "int \<Rightarrow> string list \<Rightarrow> string list \<Rightarrow> string list \<Rightarrow> int \<Rightarrow> string list" where
  "chunk_loop max_chars [] chunks current_chunk current_length =
     (if current_chunk \<noteq> [] then chunks @ [join_lines current_chunk] else chunks)"
| "chunk_loop max_chars (line # lines) chunks current_chunk current_length =
     (let line_length = int (length line) + 1 in
      if current_length + line_length > max_chars \<and> current_chunk \<noteq> []
      then chunk_loop max_chars lines (chunks @ [join_lines current_chunk])
             ([] @ [line]) (0 + line_length)
      else chunk_loop max_chars lines chunks
             (current_chunk @ [line]) (current_length + line_length))"

definition chunk_transcript :: "string \<Rightarrow> int \<Rightarrow> string list" where
  "chunk_transcript transcript_text max_chars =
     (if transcript_text = [] then []
      else if int (length transcript_text) \<le> max_chars then [transcript_text]
      else chunk_loop max_chars (split_lines transcript_text) [] [] 0)"

text \<open>
  The same loop collecting the groups of lines instead of their joins: a ghost
  copy of \<^const>\<open>chunk_loop\<close> used to reason about which lines a chunk holds.
\<close>

fun group_loop :: "int \<Rightarrow> string list \<Rightarrow> string list list \<Rightarrow> string list \<Rightarrow> int \<Rightarrow> string list list" where
  "group_loop max_chars [] groups current_chunk current_length =
     (if current_chunk \<noteq> [] then groups @ [current_chunk] else groups)"
| "group_loop max_chars (line # lines) groups current_chunk current_length =
     (let line_length = int (length line) + 1 in
      if current_length + line_length > max_chars \<and> current_chunk \<noteq> []
      then group_loop max_chars lines (groups @ [current_chunk])
             ([] @ [line]) (0 + line_length)
      else group_loop max_chars lines groups
             (current_chunk @ [line]) (current_length + line_length))"

text \<open>The value \<^verbatim>\<open>current_length\<close> has while \<^verbatim>\<open>current_chunk\<close> holds the lines \<open>ls\<close>.\<close>

definition lines_length :: "string list \<Rightarrow> int" where
  "lines_length ls = (\<Sum>l\<leftarrow>ls. int (length l) + 1)"

section \<open>utils/format\_transcript.py\<close>

text \<open>
  A caption segment, the dictionary \<^verbatim>\<open>{"text": ..., "start": ..., "duration": ...}\<close>
  of the transcript API. The two times are Python floats; every finite float is a
  rational number, so a time is modelled by the real number it denotes (NaN and the
  infinities, on which \<^verbatim>\<open>int()\<close> raises, are outside the type).
\<close>

record segment =
  seg_text :: string
  seg_start :: real
  seg_duration :: real

text \<open>\<^verbatim>\<open>int(x)\<close> on a float: truncation towards zero.\<close>

definition py_int :: "real \<Rightarrow> int" where
  "py_int x = (if 0 \<le> x then \<lfloor>x\<rfloor> else \<lceil>x\<rceil>)"

definition digit_char :: "nat \<Rightarrow> char" where
  "digit_char d = ''0123456789'' ! d"

text \<open>\<^verbatim>\<open>str(n)\<close> for a natural number: its decimal digits.\<close>

fun str_nat :: "nat \<Rightarrow> string" where
  "str_nat n = (if n < 10 then [digit_char n] else str_nat (n div 10) @ [digit_char (n mod 10)])"

text \<open>
  The format specification \<^verbatim>\<open>{n:02d}\<close>: decimal, padded with zeros to two characters,
  the sign of a negative number counting as one of them.
\<close>

definition fmt_02d :: "int \<Rightarrow> string" where
  "fmt_02d n =
     (if n < 0 then ''-'' @ str_nat (nat (- n))
      else if n < 10 then ''0'' @ str_nat (nat n)
      else str_nat (nat n))"

definition seconds_to_timestamp :: "real \<Rightarrow> string" where
  "seconds_to_timestamp seconds =
     (let total = py_int seconds;
          hrs = total div 3600;
          mins = (total mod 3600) div 60;
          secs = total mod 60
      in if hrs > 0 then fmt_02d hrs @ '':'' @ fmt_02d mins @ '':'' @ fmt_02d secs
         else fmt_02d mins @ '':'' @ fmt_02d secs)"

text \<open>
  The characters \<^verbatim>\<open>str.strip()\<close> removes, among the code points below 256: tab, line
  feed, vertical tab, form feed, carriage return, the four separators
  \<open>0x1C\<close> to \<open>0x1F\<close>, space, next line and no-break space.
\<close>

definition is_space :: "char \<Rightarrow> bool" where
  "is_space c \<longleftrightarrow>
     c \<in> set [CHR 0x09, CHR 0x0A, CHR 0x0B, CHR 0x0C, CHR 0x0D, CHR 0x1C, CHR 0x1D,
               CHR 0x1E, CHR 0x1F, CHR 0x20, CHR 0x85, CHR 0xA0]"

definition strip :: "string \<Rightarrow> string" where
  "strip s = rev (dropWhile is_space (rev (dropWhile is_space s)))"

text \<open>The \<^verbatim>\<open>for segment in transcript_segments\<close> loop, \<^verbatim>\<open>lines\<close> passed along.\<close>

fun format_loop :: "segment list \<Rightarrow> string list \<Rightarrow> string list" where
  "format_loop [] lines = lines"
| "format_loop (segment # segments) lines =
     (let timestamp = seconds_to_timestamp (seg_start segment);
          text = strip (seg_text segment)
      in if text \<noteq> [] then format_loop segments (lines @ [''['' @ timestamp @ ''] '' @ text])
         else format_loop segments lines)"

definition format_transcript :: "segment list \<Rightarrow> string" where
  "format_transcript transcript_segments =
     (if transcript_segments = [] then []
      else join_lines (format_loop transcript_segments []))"

text \<open>A number below 100 written with exactly two decimal digits.\<close>

definition two_digits :: "nat \<Rightarrow> string" where
  "two_digits n = [digit_char (n div 10), digit_char (n mod 10)]"

text \<open>The line of a segment that is kept: \<^verbatim>\<open>[timestamp] text\<close>.\<close>

definition segment_line :: "segment \<Rightarrow> string" where
  "segment_line s = ''['' @ seconds_to_timestamp (seg_start s) @ ''] '' @ strip (seg_text s)"

text \<open>
  The number that a string of decimal digits denotes, read from the left. It is
  not part of the program: the properties of \<^const>\<open>str_nat\<close> are stated with it.
\<close>

definition digit_value :: "char \<Rightarrow> nat" where
  "digit_value c = of_char c - 48"

definition decimal_value :: "string \<Rightarrow> nat" where
  "decimal_value s = foldl (\<lambda>n c. 10 * n + digit_value c) 0 s"

declare str_nat.simps [simp del]

section \<open>utils/extract\_video\_id.py\<close>

subsection \<open>The regular expressions of the module\<close>

text \<open>
  The fragment of Python's \<^verbatim>\<open>re\<close> syntax that the module uses: literal text, the
  class \<^verbatim>\<open>[a-zA-Z0-9_-]{n}\<close>, the greedy \<^verbatim>\<open>.*\<close>, a greedy optional group \<^verbatim>\<open>(?:r)?\<close>,
  concatenation, and the anchors \<^verbatim>\<open>^\<close> and \<^verbatim>\<open>$\<close>.
\<close>

datatype regex =
    Lit string
  | IdChars nat
  | AnyStar
  | Opt regex
  | Seq regex regex
  | Bol
  | Eol

text \<open>The class \<^verbatim>\<open>[a-zA-Z0-9_-]\<close>.\<close>

definition is_id_char :: "char \<Rightarrow> bool" where
  "is_id_char c \<longleftrightarrow>
     c \<in> set (''abcdefghijklmnopqrstuvwxyz'' @ ''ABCDEFGHIJKLMNOPQRSTUVWXYZ'' @
              ''0123456789'' @ ''_-'')"

text \<open>
  \<open>matches r text i\<close> lists the positions at which a match of \<open>r\<close> that starts at
  position \<open>i\<close> of \<open>text\<close> can end, in the order in which the backtracking matcher
  of \<^verbatim>\<open>re\<close> tries them: a greedy operator offers its longest alternative first.
  \<^verbatim>\<open>.\<close> matches every character but the newline; \<^verbatim>\<open>$\<close> matches at the end of the text
  and before a newline that ends the text.
\<close>

fun matches :: "regex \<Rightarrow> string \<Rightarrow> nat \<Rightarrow> nat list" where
  "matches (Lit l) text i = (if take (length l) (drop i text) = l then [i + length l] else [])"
| "matches (IdChars n) text i =
     (if length (take n (drop i text)) = n \<and> list_all is_id_char (take n (drop i text))
      then [i + n] else [])"
| "matches AnyStar text i =
     map (\<lambda>n. i + n) (rev [0..<Suc (length (takeWhile (\<lambda>c. c \<noteq> newline) (drop i text)))])"
| "matches (Opt r) text i = matches r text i @ [i]"
| "matches (Seq r1 r2) text i = concat (map (matches r2 text) (matches r1 text i))"
| "matches Bol text i = (if i = 0 then [i] else [])"
| "matches Eol text i =
     (if i = length text \<or> (Suc i = length text \<and> text ! i = newline) then [i] else [])"

text \<open>\<^verbatim>\<open>re.match(r, text)\<close> as a truth value: is there a match at position 0.\<close>

definition re_match :: "regex \<Rightarrow> string \<Rightarrow> bool" where
  "re_match r text \<longleftrightarrow> matches r text 0 \<noteq> []"

text \<open>
  A pattern \<^verbatim>\<open>prefix(group)\<close>: a regular expression followed by the one capturing
  group of the pattern. Each of the five URL patterns has this shape, so a match
  always has a group 1. \<open>group_at p text i\<close> is \<^verbatim>\<open>group(1)\<close> of the match of \<open>p\<close> that
  starts at position \<open>i\<close>, if there is one: the first alternative of the prefix
  after which the group matches.
\<close>

datatype url_pattern = Pattern regex regex

fun group_at :: "url_pattern \<Rightarrow> string \<Rightarrow> nat \<Rightarrow> string option" where
  "group_at (Pattern prefix grp) text i =
     (case concat (map (\<lambda>j. map (\<lambda>k. take (k - j) (drop j text)) (matches grp text j))
                   (matches prefix text i)) of
        [] \<Rightarrow> None
      | g # _ \<Rightarrow> Some g)"

text \<open>\<^verbatim>\<open>re.search\<close>: the match at the leftmost position that has one.\<close>

fun first_match :: "url_pattern \<Rightarrow> string \<Rightarrow> nat list \<Rightarrow> string option" where
  "first_match p text [] = None"
| "first_match p text (i # is) =
     (case group_at p text i of None \<Rightarrow> first_match p text is | Some g \<Rightarrow> Some g)"

definition re_search :: "url_pattern \<Rightarrow> string \<Rightarrow> string option" where
  "re_search p text = first_match p text [0..<Suc (length text)]"

text \<open>\<^verbatim>\<open>(?:https?://)?\<close> and \<^verbatim>\<open>(?:www\.)?\<close>, with which four of the five patterns begin.\<close>

definition scheme :: regex where
  "scheme = Opt (Seq (Lit ''http'') (Seq (Opt (Lit ''s'')) (Lit ''://'')))"

definition www :: regex where
  "www = Opt (Lit ''www.'')"

definition watch_pattern :: url_pattern where
  "watch_pattern =
     Pattern (Seq scheme (Seq www (Seq (Lit ''youtube.com/watch?'') (Seq AnyStar (Lit ''v='')))))
       (IdChars 11)"

definition short_pattern :: url_pattern where
  "short_pattern = Pattern (Seq scheme (Lit ''youtu.be/'')) (IdChars 11)"

definition shorts_pattern :: url_pattern where
  "shorts_pattern = Pattern (Seq scheme (Seq www (Lit ''youtube.com/shorts/''))) (IdChars 11)"

definition embed_pattern :: url_pattern where
  "embed_pattern = Pattern (Seq scheme (Seq www (Lit ''youtube.com/embed/''))) (IdChars 11)"

definition live_pattern :: url_pattern where
  "live_pattern = Pattern (Seq scheme (Seq www (Lit ''youtube.com/live/''))) (IdChars 11)"

definition YOUTUBE_PATTERNS :: "url_pattern list" where
  "YOUTUBE_PATTERNS = [watch_pattern, short_pattern, shorts_pattern, embed_pattern, live_pattern]"

definition BARE_ID_PATTERN :: regex where
  "BARE_ID_PATTERN = Seq Bol (Seq (IdChars 11) Eol)"

subsection \<open>The function\<close>

text \<open>The \<^verbatim>\<open>for pattern in YOUTUBE_PATTERNS\<close> loop and the \<^verbatim>\<open>raise ValueError\<close> after it.\<close>

fun try_patterns :: "url_pattern list \<Rightarrow> string \<Rightarrow> exn + string" where
  "try_patterns [] text = Inl ValueError"
| "try_patterns (pattern # patterns) text =
     (case re_search pattern text of
        Some g \<Rightarrow> Inr g
      | None \<Rightarrow> try_patterns patterns text)"

text \<open>
  The function with the list of URL patterns as a parameter, to be able to say
  that a result does not depend on them.
\<close>

definition extract_video_id_with :: "url_pattern list \<Rightarrow> string \<Rightarrow> exn + string" where
  "extract_video_id_with patterns url_or_id =
     (let text = strip url_or_id
      in if re_match BARE_ID_PATTERN text then Inr text
         else try_patterns patterns text)"

definition extract_video_id :: "string \<Rightarrow> exn + string" where
  "extract_video_id = extract_video_id_with YOUTUBE_PATTERNS"

text \<open>\<open>needs_char c r\<close>: every match of \<open>r\<close> runs over an occurrence of the character \<open>c\<close>.\<close>

fun needs_char :: "char \<Rightarrow> regex \<Rightarrow> bool" where
  "needs_char c (Lit l) \<longleftrightarrow> c \<in> set l"
| "needs_char c (Seq r1 r2) \<longleftrightarrow> needs_char c r1 \<or> needs_char c r2"
| "needs_char c _ \<longleftrightarrow> False"

subsection \<open>The supported URL shapes\<close>

text \<open>
  What stands in front of the video ID in a URL of each shape: the scheme
  \<^verbatim>\<open>https://\<close> or \<^verbatim>\<open>http://\<close> or none, then the host with or without \<^verbatim>\<open>www.\<close>
  (\<^verbatim>\<open>youtu.be\<close> has no \<^verbatim>\<open>www.\<close> form), then the path of the shape.
\<close>

definition with_scheme :: "string list \<Rightarrow> string list" where
  "with_scheme hs = concat (map (\<lambda>s. map (\<lambda>h. s @ h) hs) [''https://'', ''http://'', ''''])"

definition watch_prefixes :: "string list" where
  "watch_prefixes = with_scheme [''www.youtube.com/watch?v='', ''youtube.com/watch?v='']"

definition short_prefixes :: "string list" where
  "short_prefixes = with_scheme [''youtu.be/'']"

definition shorts_prefixes :: "string list" where
  "shorts_prefixes = with_scheme [''www.youtube.com/shorts/'', ''youtube.com/shorts/'']"

definition embed_prefixes :: "string list" where
  "embed_prefixes = with_scheme [''www.youtube.com/embed/'', ''youtube.com/embed/'']"

definition live_prefixes :: "string list" where
  "live_prefixes = with_scheme [''www.youtube.com/live/'', ''youtube.com/live/'']"

definition url_prefixes :: "string list" where
  "url_prefixes =
     watch_prefixes @ short_prefixes @ shorts_prefixes @ embed_prefixes @ live_prefixes"

section \<open>index.py: the transcript fetcher\<close>

text \<open>
  The captions provider, \<^verbatim>\<open>YouTubeTranscriptApi()\<close>, is outside the program; the model
  takes what its calls answer as a parameter. \<open>fetch_en api video_id\<close> is the
  outcome of \<^verbatim>\<open>api.fetch(video_id, languages=["en"]).to_raw_data()\<close>: the raw segment
  data, or the exception raised. \<open>list_transcripts api video_id\<close> is the outcome of
  \<^verbatim>\<open>api.list(video_id)\<close>: the exception raised, or the transcripts in the order in
  which the provider yields them, each given by the outcome of its own
  \<^verbatim>\<open>fetch().to_raw_data()\<close>. Every exception of the provider is an \<^verbatim>\<open>Exception\<close>.
\<close>

record provider =
  fetch_en :: "string \<Rightarrow> provider_error + segment list"
  list_transcripts :: "string \<Rightarrow> provider_error + (provider_error + segment list) list"

text \<open>The calls made to the provider, recorded in the order in which they are made.\<close>

datatype api_call = Fetch string | List string | TranscriptFetch nat

text \<open>
  Attempt 2 of \<^verbatim>\<open>fetch_transcript\<close>: the \<^verbatim>\<open>try\<close> block around \<^verbatim>\<open>api.list\<close>, whose loop
  returns in its first iteration, the \<^verbatim>\<open>except Exception: pass\<close>, and the final
  \<^verbatim>\<open>raise RuntimeError\<close>.
\<close>

definition attempt_2 :: "provider \<Rightarrow> string \<Rightarrow> api_call list \<times> (exn + segment list)" where
  "attempt_2 api video_id =
     (case list_transcripts api video_id of
        Inl e \<Rightarrow> ([List video_id], Inl (RuntimeError NoCaptions))
      | Inr transcript_list \<Rightarrow>
          (case transcript_list of
             [] \<Rightarrow> ([List video_id], Inl (RuntimeError NoCaptions))
           | transcript # _ \<Rightarrow>
               (case transcript of
                  Inr result \<Rightarrow> ([List video_id, TranscriptFetch 0], Inr result)
                | Inl e \<Rightarrow> ([List video_id, TranscriptFetch 0], Inl (RuntimeError NoCaptions)))))"

text \<open>
  \<^verbatim>\<open>fetch_transcript\<close>: the calls it makes and what it returns or raises. An exception
  of attempt 1 that no \<^verbatim>\<open>except\<close> clause names leaves the function as it is.
\<close>

definition fetch_transcript :: "provider \<Rightarrow> string \<Rightarrow> api_call list \<times> (exn + segment list)" where
  "fetch_transcript api video_id =
     (case fetch_en api video_id of
        Inr result \<Rightarrow> ([Fetch video_id], Inr result)
      | Inl e \<Rightarrow>
          (case e of
             NoTranscriptFound \<Rightarrow>
               (Fetch video_id # fst (attempt_2 api video_id), snd (attempt_2 api video_id))
           | TranscriptsDisabled \<Rightarrow> ([Fetch video_id], Inl (RuntimeError Disabled))
           | VideoUnavailable \<Rightarrow> ([Fetch video_id], Inl (RuntimeError Unavailable))
           | InvalidVideoId \<Rightarrow> ([Fetch video_id], Inl (RuntimeError InvalidId))
           | RequestBlocked \<Rightarrow> ([Fetch video_id], Inl (RuntimeError Blocked))
           | IpBlocked \<Rightarrow> ([Fetch video_id], Inl (RuntimeError Blocked))
           | OtherError x \<Rightarrow> ([Fetch video_id], Inl (ProviderError (OtherError x)))))"

section \<open>Python floats\<close>

text \<open>
  A Python \<^verbatim>\<open>float\<close> is an IEEE 754 double: a finite value, given by the real number
  it denotes, an infinity, or NaN (\<^verbatim>\<open>json.load\<close> returns all of them).
\<close>

datatype pyfloat = Finite real | PosInf | NegInf | NaN

text \<open>Rounding to the nearest integer, a tie going to the even one.\<close>

definition round_half_even :: "real \<Rightarrow> int" where
  "round_half_even q =
     (let f = \<lfloor>q\<rfloor>; r = q - of_int f
      in if r < 1 / 2 then f else if 1 / 2 < r then f + 1 else if even f then f else f + 1)"

text \<open>
  The double nearest to a real number, ties to even. Doubles are the multiples
  \<open>m * 2 ^ k / 2 ^ 1074\<close> with \<open>m < 2 ^ 53\<close>: the spacing is \<open>2 ^ k / 2 ^ 1074\<close>
  where \<open>k\<close> is by how many bits \<open>\<bar>x\<bar> * 2 ^ 1074\<close> is longer than 53 bits (0 for the
  subnormal numbers). A result of magnitude \<open>2 ^ 1024\<close> or more is an infinity.
\<close>

definition rnd64 :: "real \<Rightarrow> pyfloat" where
  "rnd64 x =
     (let a = \<bar>x\<bar>;
          k = floorlog 2 (nat \<lfloor>a * 2 ^ 1074\<rfloor>) - 53;
          m = round_half_even (a * 2 ^ 1074 / 2 ^ k);
          v = of_int m * 2 ^ k / 2 ^ 1074
      in if 2 ^ 1024 \<le> v then (if x < 0 then NegInf else PosInf)
         else Finite (if x < 0 then - v else v))"

text \<open>The real numbers that are doubles.\<close>

definition is_double :: "real \<Rightarrow> bool" where
  "is_double x \<longleftrightarrow> rnd64 x = Finite x"

text \<open>
  The conversion of an \<^verbatim>\<open>int\<close> operand of a float operation: the nearest double, and
  \<^verbatim>\<open>OverflowError\<close> when there is none.
\<close>

definition py_float_of_int :: "int \<Rightarrow> exn + pyfloat" where
  "py_float_of_int n =
     (case rnd64 (of_int n) of Finite v \<Rightarrow> Inr (Finite v) | _ \<Rightarrow> Inl OverflowError)"

text \<open>\<^verbatim>\<open>x - y\<close> for a finite float \<open>x\<close> and a float \<open>y\<close>.\<close>

fun py_sub :: "real \<Rightarrow> pyfloat \<Rightarrow> pyfloat" where
  "py_sub x (Finite y) = rnd64 (x - y)"
| "py_sub x PosInf = NegInf"
| "py_sub x NegInf = PosInf"
| "py_sub x NaN = NaN"

text \<open>\<^verbatim>\<open>x > n\<close> for a float \<open>x\<close> and an \<^verbatim>\<open>int\<close> \<open>n\<close>: Python compares the two exactly.\<close>

fun py_gt :: "pyfloat \<Rightarrow> int \<Rightarrow> bool" where
  "py_gt (Finite v) n \<longleftrightarrow> of_int n < v"
| "py_gt PosInf n \<longleftrightarrow> True"
| "py_gt NegInf n \<longleftrightarrow> False"
| "py_gt NaN n \<longleftrightarrow> False"

section \<open>index.py: the cache\<close>

text \<open>
  A value that \<^verbatim>\<open>json.load\<close> returns. \<open>JNull\<close> is Python's \<^verbatim>\<open>None\<close>; a number is an
  \<^verbatim>\<open>int\<close> of any size or a \<^verbatim>\<open>float\<close>; the items of an object are listed, and a key is
  looked up from the front.
\<close>

datatype json =
    JNull
  | JBool bool
  | JInt int
  | JFloat pyfloat
  | JStr string
  | JArr "json list"
  | JObj "(string \<times> json) list"

text \<open>
  What is found at the path of a cache file when it is opened and parsed:
  \<open>Unreadable\<close>, \<^verbatim>\<open>open\<close> or the read raises \<^verbatim>\<open>OSError\<close>; \<open>Undecodable\<close>, the bytes are
  not UTF-8 and the read raises \<^verbatim>\<open>UnicodeDecodeError\<close>; \<open>Corrupt\<close>, \<^verbatim>\<open>json.load\<close> raises
  \<^verbatim>\<open>JSONDecodeError\<close>; \<open>Valid v\<close>, \<^verbatim>\<open>json.load\<close> returns \<open>v\<close>.
\<close>

datatype file_state = Unreadable | Undecodable | Corrupt | Valid json

text \<open>How a write of a cache file fails: in \<^verbatim>\<open>open\<close>, or in \<^verbatim>\<open>json.dump\<close> part-way.\<close>

datatype write_failure = OnOpen | OnDump

text \<open>
  The file system as the program meets it: the files of \<^verbatim>\<open>CACHE_DIR\<close> by name, and
  whether \<^verbatim>\<open>os.remove\<close>, \<^verbatim>\<open>os.makedirs\<close> and the write of a file raise \<^verbatim>\<open>OSError\<close>.
\<close>

record os_env =
  files :: "string \<rightharpoonup> file_state"
  remove_fails :: bool
  makedirs_fails :: bool
  write_fails :: "write_failure option"

definition CACHE_TTL_SECONDS :: int where
  "CACHE_TTL_SECONDS = 7 * 24 * 3600"

text \<open>\<^verbatim>\<open>d.get(k, default)\<close> on a dictionary.\<close>

definition dict_get :: "(string \<times> json) list \<Rightarrow> string \<Rightarrow> json \<Rightarrow> json" where
  "dict_get d k dflt = (case map_of d k of None \<Rightarrow> dflt | Some v \<Rightarrow> v)"

text \<open>
  The value of \<^verbatim>\<open>time.time() - cached_at > CACHE_TTL_SECONDS\<close>, where \<open>now\<close> is the
  reading of the clock, a finite float. An \<^verbatim>\<open>int\<close> is converted to a float first (a
  truth value is an \<^verbatim>\<open>int\<close> in Python), which raises \<^verbatim>\<open>OverflowError\<close> when it is too
  large; on anything that is not a number the subtraction raises \<^verbatim>\<open>TypeError\<close>.
\<close>

fun ttl_exceeded :: "real \<Rightarrow> json \<Rightarrow> exn + bool" where
  "ttl_exceeded now (JFloat y) = Inr (py_gt (py_sub now y) CACHE_TTL_SECONDS)"
| "ttl_exceeded now (JInt n) =
     (case py_float_of_int n of
        Inl e \<Rightarrow> Inl e
      | Inr y \<Rightarrow> Inr (py_gt (py_sub now y) CACHE_TTL_SECONDS))"
| "ttl_exceeded now (JBool b) =
     (case py_float_of_int (if b then 1 else 0) of
        Inl e \<Rightarrow> Inl e
      | Inr y \<Rightarrow> Inr (py_gt (py_sub now y) CACHE_TTL_SECONDS))"
| "ttl_exceeded now _ = Inl TypeError"

text \<open>
  \<^verbatim>\<open>get_cached_transcript\<close>, with the reading \<open>now\<close> of \<^verbatim>\<open>time.time()\<close>. The file of
  \<^verbatim>\<open>CACHE_DIR\<close> is named by \<open>cache_file\<close>. The \<^verbatim>\<open>except\<close> clause catches \<^verbatim>\<open>JSONDecodeError\<close>
  and \<^verbatim>\<open>OSError\<close>, also the \<^verbatim>\<open>OSError\<close> of \<^verbatim>\<open>os.remove\<close>; \<^verbatim>\<open>cached.get\<close> on a value that
  is no dictionary raises \<^verbatim>\<open>AttributeError\<close>.
\<close>

definition get_cached_transcript :: "real \<Rightarrow> os_env \<Rightarrow> string \<Rightarrow> (exn + json) \<times> os_env" where
  "get_cached_transcript now env video_id =
     (let cache_file = video_id @ ''.json'' in
      case files env cache_file of
        None \<Rightarrow> (Inr JNull, env)
      | Some Unreadable \<Rightarrow> (Inr JNull, env)
      | Some Undecodable \<Rightarrow> (Inl UnicodeDecodeError, env)
      | Some Corrupt \<Rightarrow> (Inr JNull, env)
      | Some (Valid cached) \<Rightarrow>
          (case cached of
             JObj d \<Rightarrow>
               (let cached_at = dict_get d ''cached_at'' (JInt 0) in
                case ttl_exceeded now cached_at of
                  Inl e \<Rightarrow> (Inl e, env)
                | Inr expired \<Rightarrow>
                    if expired
                    then (if remove_fails env then (Inr JNull, env)
                          else (Inr JNull, env\<lparr>files := (files env)(cache_file := None)\<rparr>))
                    else (Inr (dict_get d ''segments'' JNull), env))
           | _ \<Rightarrow> (Inl AttributeError, env)))"

text \<open>
  The dictionary that \<^verbatim>\<open>save_to_cache\<close> dumps; the clock reading and the times of a
  segment are floats.
\<close>

definition segment_json :: "segment \<Rightarrow> json" where
  "segment_json s =
     JObj [(''text'', JStr (seg_text s)), (''start'', JFloat (Finite (seg_start s))),
           (''duration'', JFloat (Finite (seg_duration s)))]"

definition cache_entry :: "string \<Rightarrow> real \<Rightarrow> segment list \<Rightarrow> json" where
  "cache_entry video_id now segments =
     JObj [(''video_id'', JStr video_id), (''cached_at'', JFloat (Finite now)),
           (''segments'', JArr (map segment_json segments))]"

text \<open>
  \<^verbatim>\<open>save_to_cache\<close>. \<^verbatim>\<open>os.makedirs\<close> stands in front of the \<^verbatim>\<open>try\<close>, so its \<^verbatim>\<open>OSError\<close>
  leaves the function; an \<^verbatim>\<open>OSError\<close> of the write is caught. A write that stops in
  \<^verbatim>\<open>json.dump\<close> leaves a file that is not valid JSON.
\<close>

definition save_to_cache :: "real \<Rightarrow> os_env \<Rightarrow> string \<Rightarrow> segment list \<Rightarrow> (exn + unit) \<times> os_env" where
  "save_to_cache now env video_id segments =
     (if makedirs_fails env then (Inl OSError, env)
      else let cache_file = video_id @ ''.json'' in
        case write_fails env of
          Some OnOpen \<Rightarrow> (Inr (), env)
        | Some OnDump \<Rightarrow> (Inr (), env\<lparr>files := (files env)(cache_file \<mapsto> Corrupt)\<rparr>)
        | None \<Rightarrow>
            (Inr (), env\<lparr>files := (files env)(cache_file \<mapsto>
                                 Valid (cache_entry video_id now segments))\<rparr>))"

section \<open>index.py: the pipeline\<close>

text \<open>
  What a run prints: one chunk as plain text, or the JSON object with the fields
  \<^verbatim>\<open>video_id\<close>, \<^verbatim>\<open>total_chunks\<close> and \<^verbatim>\<open>chunks\<close> (and the fixed \<^verbatim>\<open>note\<close>).
\<close>

datatype printed = Plain string | Chunked string nat "string list"

text \<open>
  Why a run exits with code 1: no argument, \<^verbatim>\<open>ValueError\<close> of the extractor, a
  \<^verbatim>\<open>RuntimeError\<close> of the fetcher, any other exception of the cache and fetch step,
  or an empty formatted transcript.
\<close>

datatype failure =
    NoArgument
  | InvalidInput
  | FetchFailed fetch_error
  | Unexpected exn
  | EmptyTranscript

text \<open>
  \<open>Printed\<close>: standard output and exit code 0. \<open>Failed\<close>: a message on standard
  error and exit code 1. \<open>Unmodelled\<close>: the cache held a payload that is not a list
  of segment dictionaries; what Python's dynamic typing does with it is not part
  of this model.
\<close>

datatype outcome = Printed printed | Failed failure | Unmodelled

text \<open>The transcript segments of a run, from the cache or from the provider.\<close>

datatype segments_value = FromCache json | FromApi "segment list"

text \<open>
  The \<^verbatim>\<open>try\<close> block of \<^verbatim>\<open>main\<close>: cache first, then the provider and the write of the
  cache, with the readings of the clock at the read and at the write.
\<close>

definition transcript_with_cache ::
    "provider \<Rightarrow> real \<Rightarrow> real \<Rightarrow> os_env \<Rightarrow> string \<Rightarrow> (exn + segments_value) \<times> os_env" where
  "transcript_with_cache api now_read now_write env video_id =
     (case get_cached_transcript now_read env video_id of
        (Inl e, env1) \<Rightarrow> (Inl e, env1)
      | (Inr cached, env1) \<Rightarrow>
          if cached = JNull then
            (case snd (fetch_transcript api video_id) of
               Inl e \<Rightarrow> (Inl e, env1)
             | Inr transcript_segments \<Rightarrow>
                 (case save_to_cache now_write env1 video_id transcript_segments of
                    (Inl e, env2) \<Rightarrow> (Inl e, env2)
                  | (Inr _, env2) \<Rightarrow> (Inr (FromApi transcript_segments), env2)))
          else (Inr (FromCache cached), env1))"

text \<open>Python's truth value of a value read from JSON.\<close>

fun falsy :: "json \<Rightarrow> bool" where
  "falsy JNull = True"
| "falsy (JBool b) = (\<not> b)"
| "falsy (JInt n) = (n = 0)"
| "falsy (JFloat x) = (x = Finite 0)"
| "falsy (JStr s) = (s = [])"
| "falsy (JArr xs) = (xs = [])"
| "falsy (JObj d) = (d = [])"

text \<open>
  A number read from JSON as the seconds of a segment: an \<^verbatim>\<open>int\<close> or a finite float.
\<close>

fun json_seconds :: "json \<Rightarrow> real option" where
  "json_seconds (JInt n) = Some (of_int n)"
| "json_seconds (JFloat (Finite x)) = Some x"
| "json_seconds _ = None"

text \<open>
  A cached segment as \<^verbatim>\<open>format_transcript\<close> reads it: a dictionary with a string
  under \<^verbatim>\<open>text\<close> and a number under \<^verbatim>\<open>start\<close>. The duration is never read.
\<close>

fun segment_of_json :: "json \<Rightarrow> segment option" where
  "segment_of_json (JObj d) =
     (case (map_of d ''text'', Option.bind (map_of d ''start'') json_seconds) of
        (Some (JStr t), Some x) \<Rightarrow>
          Some \<lparr>seg_text = t, seg_start = x,
                seg_duration =
                  (case Option.bind (map_of d ''duration'') json_seconds of
                     Some y \<Rightarrow> y | None \<Rightarrow> 0)\<rparr>
      | _ \<Rightarrow> None)"
| "segment_of_json _ = None"

fun segments_of_json :: "json \<Rightarrow> segment list option" where
  "segments_of_json (JArr xs) =
     (if list_all (\<lambda>x. segment_of_json x \<noteq> None) xs
      then Some (map (\<lambda>x. the (segment_of_json x)) xs) else None)"
| "segments_of_json _ = None"

text \<open>Format, chunk and output: the rest of \<^verbatim>\<open>main\<close> after the \<^verbatim>\<open>try\<close> block.\<close>

definition render :: "string \<Rightarrow> segment list \<Rightarrow> outcome" where
  "render video_id transcript_segments =
     (let formatted = format_transcript transcript_segments in
      if formatted = [] then Failed EmptyTranscript
      else let chunks = chunk_transcript formatted 4000 in
        if length chunks = 1 then Printed (Plain (chunks ! 0))
        else Printed (Chunked video_id (length chunks) chunks))"

text \<open>
  \<^verbatim>\<open>main\<close> on the argument vector \<^verbatim>\<open>sys.argv\<close>: the outcome of the run and the file
  system it leaves.
\<close>

definition main :: "string list \<Rightarrow> provider \<Rightarrow> real \<Rightarrow> real \<Rightarrow> os_env \<Rightarrow> outcome \<times> os_env" where
  "main argv api now_read now_write env =
     (if length argv < 2 then (Failed NoArgument, env)
      else
        case extract_video_id (argv ! 1) of
          Inl e \<Rightarrow> (Failed InvalidInput, env)
        | Inr video_id \<Rightarrow>
            (case transcript_with_cache api now_read now_write env video_id of
               (Inl (RuntimeError c), env') \<Rightarrow> (Failed (FetchFailed c), env')
             | (Inl e, env') \<Rightarrow> (Failed (Unexpected e), env')
             | (Inr (FromApi transcript_segments), env') \<Rightarrow>
                 (render video_id transcript_segments, env')
             | (Inr (FromCache cached), env') \<Rightarrow>
                 if falsy cached then (Failed EmptyTranscript, env')
                 else (case segments_of_json cached of
                         Some transcript_segments \<Rightarrow> (render video_id transcript_segments, env')
                       | None \<Rightarrow> (Unmodelled, env'))))"

definition exit_code :: "outcome \<Rightarrow> nat option" where
  "exit_code r = (case r of Printed _ \<Rightarrow> Some 0 | Failed _ \<Rightarrow> Some 1 | Unmodelled \<Rightarrow> None)"

section \<open>Example data\<close>

text \<open>The segment list of the specification's examples, and its formatted text.\<close>

definition hi_segments :: "segment list" where
  "hi_segments = [\<lparr>seg_text = ''hi'', seg_start = 65, seg_duration = 2\<rparr>]"

text \<open>A file system with the cache files \<open>fs\<close> on which no operation fails.\<close>

definition reliable :: "(string \<rightharpoonup> file_state) \<Rightarrow> os_env" where
  "reliable fs = \<lparr>files = fs, remove_fails = False, makedirs_fails = False, write_fails = None\<rparr>"

text \<open>A provider that has the English transcript \<open>segs\<close> for every video.\<close>

definition english :: "segment list \<Rightarrow> provider" where
  "english segs = \<lparr>fetch_en = (\<lambda>_. Inr segs), list_transcripts = (\<lambda>_. Inr [Inr segs])\<rparr>"

section \<open>Properties of the chunker\<close>

subsection \<open>Splitting and joining lines\<close>

lemma split_lines_not_Nil: "split_lines s \<noteq> []"
  by (induction s) (auto split: list.splits)

lemma join_split_lines: "join_lines (split_lines s) = s"
proof (induction s)
  case Nil show ?case by simp
next
  case (Cons c cs)
  show ?case
  proof (cases "split_lines cs")
    case Nil with split_lines_not_Nil show ?thesis by blast
  next
    case (Cons l ls)
    with Cons.IH show ?thesis by (cases ls) auto
  qed
qed

lemma split_lines_no_newline: "l \<in> set (split_lines s) \<Longrightarrow> newline \<notin> set l"
  by (induction s arbitrary: l) (auto split: if_splits list.splits)

lemma split_lines_plain: "newline \<notin> set l \<Longrightarrow> split_lines l = [l]"
  by (induction l) auto

lemma split_lines_append:
  "newline \<notin> set l \<Longrightarrow> split_lines (l @ newline # s) = l # split_lines s"
  by (induction l) auto

lemma split_join_lines:
  "ls \<noteq> [] \<Longrightarrow> \<forall>l\<in>set ls. newline \<notin> set l \<Longrightarrow> split_lines (join_lines ls) = ls"
  by (induction ls rule: join_lines.induct) (auto simp: split_lines_plain split_lines_append)

lemma join_lines_append:
  "xs \<noteq> [] \<Longrightarrow> ys \<noteq> [] \<Longrightarrow> join_lines (xs @ ys) = join_lines xs @ newline # join_lines ys"
  by (induction xs rule: join_lines.induct) (auto simp: neq_Nil_conv)

lemma join_lines_concat:
  "[] \<notin> set gs \<Longrightarrow> join_lines (map join_lines gs) = join_lines (concat gs)"
proof (induction gs)
  case Nil show ?case by simp
next
  case (Cons g gs)
  show ?case
  proof (cases gs)
    case Nil then show ?thesis by simp
  next
    case (Cons g' gs')
    have "concat gs \<noteq> []" using Cons.prems Cons by auto
    moreover have "g \<noteq> []" using Cons.prems by auto
    ultimately show ?thesis using Cons.IH Cons.prems Cons
      by (simp add: join_lines_append del: concat.simps) (simp add: join_lines_append)
  qed
qed

lemma chunk_loop_groups:
  "chunk_loop m ls (map join_lines gs) cur cl = map join_lines (group_loop m ls gs cur cl)"
proof (induction ls arbitrary: gs cur cl)
  case Nil show ?case by simp
next
  case (Cons l ls)
  have "chunk_loop m ls (map join_lines gs @ [join_lines cur]) c k =
        map join_lines (group_loop m ls (gs @ [cur]) c k)" for c k
    using Cons.IH [of "gs @ [cur]" c k] by simp
  then show ?case using Cons.IH by (simp add: Let_def)
qed

lemma concat_group_loop:
  "concat (group_loop m ls gs cur cl) = concat gs @ cur @ ls"
  by (induction ls arbitrary: gs cur cl) (auto simp: Let_def)

lemma group_loop_nonempty:
  "[] \<notin> set gs \<Longrightarrow> [] \<notin> set (group_loop m ls gs cur cl)"
  by (induction ls arbitrary: gs cur cl) (auto simp: Let_def)

subsection \<open>Invariants of the chunking loop\<close>

lemma nth_of_concat:
  "k < length gs \<Longrightarrow>
   gs ! k = take (length (gs ! k)) (drop (length (concat (take k gs))) (concat gs))"
proof -
  assume k: "k < length gs"
  have "concat gs = concat (take k gs) @ gs ! k @ concat (drop (Suc k) gs)"
    using id_take_nth_drop [OF k] by (metis concat.simps(2) concat_append)
  then show ?thesis by simp
qed

lemma lines_length_append [simp]:
  "lines_length (xs @ ys) = lines_length xs + lines_length ys"
  by (simp add: lines_length_def)

lemma lines_length_single [simp]: "lines_length [l] = int (length l) + 1"
  by (simp add: lines_length_def)

lemma lines_length_Nil [simp]: "lines_length [] = 0"
  by (simp add: lines_length_def)

lemma lines_length_nonneg: "0 \<le> lines_length ls"
  by (induction ls) (auto simp: lines_length_def)

lemma lines_length_member: "l \<in> set ls \<Longrightarrow> int (length l) + 1 \<le> lines_length ls"
proof (induction ls)
  case Nil then show ?case by simp
next
  case (Cons a ls)
  have "lines_length (a # ls) = int (length a) + 1 + lines_length ls"
    by (simp add: lines_length_def)
  with Cons lines_length_nonneg [of ls] show ?case by auto
qed

lemma length_join_lines: "g \<noteq> [] \<Longrightarrow> int (length (join_lines g)) = lines_length g - 1"
  by (induction g rule: join_lines.induct) (auto simp: lines_length_def)

lemma group_loop_fits:
  assumes "\<forall>g\<in>set gs. 2 \<le> length g \<longrightarrow> lines_length g \<le> m"
    and "cl = lines_length cur" and "2 \<le> length cur \<longrightarrow> cl \<le> m"
  shows "\<forall>g\<in>set (group_loop m ls gs cur cl). 2 \<le> length g \<longrightarrow> lines_length g \<le> m"
  using assms
proof (induction ls arbitrary: gs cur cl)
  case Nil then show ?case by auto
next
  case (Cons l ls)
  show ?case
  proof (cases "cl + (int (length l) + 1) > m \<and> cur \<noteq> []")
    case True
    have "\<forall>g\<in>set (group_loop m ls (gs @ [cur]) [l] (int (length l) + 1)).
            2 \<le> length g \<longrightarrow> lines_length g \<le> m"
      using Cons.prems by (intro Cons.IH) auto
    with True show ?thesis by (simp add: Let_def)
  next
    case False
    have "\<forall>g\<in>set (group_loop m ls gs (cur @ [l]) (cl + (int (length l) + 1))).
            2 \<le> length g \<longrightarrow> lines_length g \<le> m"
    proof (intro Cons.IH)
      show "\<forall>g\<in>set gs. 2 \<le> length g \<longrightarrow> lines_length g \<le> m" by (rule Cons.prems)
      show "cl + (int (length l) + 1) = lines_length (cur @ [l])" using Cons.prems by simp
      show "2 \<le> length (cur @ [l]) \<longrightarrow> cl + (int (length l) + 1) \<le> m"
        using False by (cases cur) auto
    qed
    with False show ?thesis by (auto simp: Let_def)
  qed
qed

lemma group_loop_isolates:
  assumes "\<forall>g\<in>set gs. \<forall>l\<in>set g. m < int (length l) \<longrightarrow> g = [l]"
    and "\<forall>l\<in>set cur. m < int (length l) \<longrightarrow> cur = [l]"
    and "cl = lines_length cur"
  shows "\<forall>g\<in>set (group_loop m ls gs cur cl). \<forall>l\<in>set g. m < int (length l) \<longrightarrow> g = [l]"
  using assms
proof (induction ls arbitrary: gs cur cl)
  case Nil then show ?case by auto
next
  case (Cons l ls)
  show ?case
  proof (cases "cl + (int (length l) + 1) > m \<and> cur \<noteq> []")
    case True
    have "\<forall>g\<in>set (group_loop m ls (gs @ [cur]) [l] (int (length l) + 1)).
            \<forall>l\<in>set g. m < int (length l) \<longrightarrow> g = [l]"
      using Cons.prems by (intro Cons.IH) auto
    with True show ?thesis by (simp add: Let_def)
  next
    case False
    have "\<forall>g\<in>set (group_loop m ls gs (cur @ [l]) (cl + (int (length l) + 1))).
            \<forall>l\<in>set g. m < int (length l) \<longrightarrow> g = [l]"
    proof (intro Cons.IH)
      show "\<forall>g\<in>set gs. \<forall>l\<in>set g. m < int (length l) \<longrightarrow> g = [l]" by (rule Cons.prems)
      show "cl + (int (length l) + 1) = lines_length (cur @ [l])" using Cons.prems by simp
      show "\<forall>l'\<in>set (cur @ [l]). m < int (length l') \<longrightarrow> cur @ [l] = [l']"
      proof (cases "cur = []")
        case True then show ?thesis by simp
      next
        case ne: False
        with False have le: "lines_length cur + (int (length l) + 1) \<le> m"
          using Cons.prems by simp
        have "\<not> m < int (length l')" if "l' \<in> set (cur @ [l])" for l'
        proof (cases "l' = l")
          case True
          with le lines_length_nonneg [of cur] show ?thesis by simp
        next
          case False
          with that have "l' \<in> set cur" by simp
          from lines_length_member [OF this] le show ?thesis by simp
        qed
        then show ?thesis by blast
      qed
    qed
    with False show ?thesis by (auto simp: Let_def)
  qed
qed

lemma split_lines_length_le: "l \<in> set (split_lines s) \<Longrightarrow> length l \<le> length s"
  by (induction s arbitrary: l) (fastforce split: if_splits list.splits)+

subsection \<open>Chunks are slices of the line sequence\<close>

lemma chunk_loop_start:
  "chunk_loop m ls [] [] 0 = map join_lines (group_loop m ls [] [] 0)"
  using chunk_loop_groups [of m ls "[]" "[]" 0] by simp

lemma split_lines_group:
  assumes "g \<in> set (group_loop m (split_lines t) [] [] 0)"
  shows "split_lines (join_lines g) = g" and "g \<noteq> []" and "set g \<subseteq> set (split_lines t)"
proof -
  let ?gs = "group_loop m (split_lines t) [] [] 0"
  have c: "concat ?gs = split_lines t" by (simp add: concat_group_loop)
  show sub: "set g \<subseteq> set (split_lines t)" using assms c by (metis set_concat UN_I subsetI)
  have "[] \<notin> set ?gs" by (rule group_loop_nonempty) simp
  with assms show ne: "g \<noteq> []" by auto
  have "\<forall>l\<in>set g. newline \<notin> set l" using sub split_lines_no_newline by blast
  with ne show "split_lines (join_lines g) = g" by (rule split_join_lines)
qed

lemma map_split_lines_chunk_loop:
  "map split_lines (chunk_loop m (split_lines t) [] [] 0) = group_loop m (split_lines t) [] [] 0"
  unfolding chunk_loop_start by (simp add: map_idI split_lines_group(1))

lemma chunks_cover_lines:
  "t \<noteq> [] \<Longrightarrow> concat (map split_lines (chunk_transcript t m)) = split_lines t"
  by (simp add: chunk_transcript_def map_split_lines_chunk_loop concat_group_loop)

lemma join_chunks:
  "join_lines (chunk_transcript t m) = t"
proof -
  have "[] \<notin> set (group_loop m (split_lines t) [] [] 0)" by (rule group_loop_nonempty) simp
  then have "join_lines (chunk_loop m (split_lines t) [] [] 0) = join_lines (split_lines t)"
    unfolding chunk_loop_start by (simp add: join_lines_concat concat_group_loop)
  then show ?thesis by (simp add: chunk_transcript_def join_split_lines)
qed

text \<open>
  Claim C1. For a non-empty text and \<open>max_chars \<ge> 1\<close> the chunks are contiguous,
  non-overlapping slices of \<^verbatim>\<open>text.split("\n")\<close>: the line sequences of the chunks,
  concatenated in order, are exactly the line sequence of the text; joining the
  chunks with a newline gives the text back; and chunk \<open>k\<close> is the newline-join of
  the slice of the original lines that starts where the lines of the chunks before
  it end and is as long as the chunk has lines.
\<close>

theorem chunk_transcript_slices:
  assumes "text \<noteq> []" and "1 \<le> max_chars"
  shows "concat (map split_lines (chunk_transcript text max_chars)) = split_lines text
       \<and> join_lines (chunk_transcript text max_chars) = text
       \<and> (\<forall>k < length (chunk_transcript text max_chars).
            chunk_transcript text max_chars ! k =
              join_lines
                (take (length (split_lines (chunk_transcript text max_chars ! k)))
                   (drop (length (concat (map split_lines (take k (chunk_transcript text max_chars)))))
                      (split_lines text))))"
proof -
  let ?cs = "chunk_transcript text max_chars"
  have cover: "concat (map split_lines ?cs) = split_lines text"
    using assms(1) by (rule chunks_cover_lines)
  have slice: "?cs ! k = join_lines (take (length (split_lines (?cs ! k)))
      (drop (length (concat (map split_lines (take k ?cs)))) (split_lines text)))"
    if "k < length ?cs" for k
  proof -
    from that have "k < length (map split_lines ?cs)" by simp
    from nth_of_concat [OF this] that
    have "split_lines (?cs ! k) = take (length (split_lines (?cs ! k)))
      (drop (length (concat (map split_lines (take k ?cs)))) (split_lines text))"
      by (simp add: cover take_map)
    then show ?thesis by (metis join_split_lines)
  qed
  from cover join_chunks slice show ?thesis by blast
qed

theorem chunk_transcript_slices_witness:
  "chunk_transcript ''a\<newline>bb\<newline>ccc\<newline>dddddddddd'' 10 = [''a\<newline>bb\<newline>ccc'', ''dddddddddd'']
   \<and> concat (map split_lines [''a\<newline>bb\<newline>ccc'', ''dddddddddd'']) = split_lines ''a\<newline>bb\<newline>ccc\<newline>dddddddddd''
   \<and> join_lines [''a\<newline>bb\<newline>ccc'', ''dddddddddd''] = ''a\<newline>bb\<newline>ccc\<newline>dddddddddd''
   \<and> ''dddddddddd'' = join_lines (take 1 (drop 3 (split_lines ''a\<newline>bb\<newline>ccc\<newline>dddddddddd'')))"
proof -
  have c: "chunk_transcript ''a\<newline>bb\<newline>ccc\<newline>dddddddddd'' 10 = [''a\<newline>bb\<newline>ccc'', ''dddddddddd'']"
    by (simp add: chunk_transcript_def)
  have "''a\<newline>bb\<newline>ccc\<newline>dddddddddd'' \<noteq> []" and "(1::int) \<le> 10" by simp_all
  from chunk_transcript_slices [OF this]
  have "concat (map split_lines [''a\<newline>bb\<newline>ccc'', ''dddddddddd'']) = split_lines ''a\<newline>bb\<newline>ccc\<newline>dddddddddd''"
    and "join_lines [''a\<newline>bb\<newline>ccc'', ''dddddddddd''] = ''a\<newline>bb\<newline>ccc\<newline>dddddddddd''"
    and "\<forall>k < length [''a\<newline>bb\<newline>ccc'', ''dddddddddd''].
            [''a\<newline>bb\<newline>ccc'', ''dddddddddd''] ! k =
              join_lines
                (take (length (split_lines ([''a\<newline>bb\<newline>ccc'', ''dddddddddd''] ! k)))
                   (drop (length (concat (map split_lines (take k [''a\<newline>bb\<newline>ccc'', ''dddddddddd'']))))
                      (split_lines ''a\<newline>bb\<newline>ccc\<newline>dddddddddd'')))"
    unfolding c by blast+
  from this(1,2) this(3) [rule_format, of 1] c show ?thesis by simp
qed

subsection \<open>Long lines and the size bound\<close>

lemma chunk_loop_member:
  assumes "c \<in> set (chunk_loop m (split_lines t) [] [] 0)"
  obtains g where "g \<in> set (group_loop m (split_lines t) [] [] 0)" and "c = join_lines g"
  using assms unfolding chunk_loop_start by auto

lemma group_fits:
  assumes "g \<in> set (group_loop m (split_lines t) [] [] 0)" and "2 \<le> length g"
  shows "int (length (join_lines g)) < m"
proof -
  have "\<forall>g\<in>set (group_loop m (split_lines t) [] [] 0). 2 \<le> length g \<longrightarrow> lines_length g \<le> m"
    by (rule group_loop_fits) simp_all
  with assms have "lines_length g \<le> m" by blast
  moreover from assms(2) have "g \<noteq> []" by auto
  ultimately show ?thesis by (simp add: length_join_lines)
qed

lemma long_line_own_group:
  assumes "l \<in> set (split_lines t)" and "m < int (length l)"
  shows "[l] \<in> set (group_loop m (split_lines t) [] [] 0)"
proof -
  let ?gs = "group_loop m (split_lines t) [] [] 0"
  have iso: "\<forall>g\<in>set ?gs. \<forall>l\<in>set g. m < int (length l) \<longrightarrow> g = [l]"
    by (rule group_loop_isolates) simp_all
  have "concat ?gs = split_lines t" by (simp add: concat_group_loop)
  with assms(1) have "l \<in> \<Union> (set ` set ?gs)" by (metis set_concat)
  then obtain g where g: "g \<in> set ?gs" "l \<in> set g" by blast
  with iso assms(2) have "g = [l]" by blast
  with g show ?thesis by simp
qed

text \<open>
  Claim C6. For every text and \<open>max_chars \<ge> 1\<close>: a chunk longer than \<open>max_chars\<close>
  holds no newline, it is one whole line of the text; a chunk of two or more lines
  is at most \<open>max_chars\<close> long; and every line of the text that is longer than
  \<open>max_chars\<close> is a chunk by itself.
\<close>

theorem chunk_transcript_long_line:
  assumes "1 \<le> max_chars"
  shows "(\<forall>c\<in>set (chunk_transcript text max_chars).
            (max_chars < int (length c) \<longrightarrow>
               newline \<notin> set c \<and> split_lines c = [c] \<and> c \<in> set (split_lines text))
          \<and> (2 \<le> length (split_lines c) \<longrightarrow> int (length c) \<le> max_chars))
       \<and> (\<forall>l\<in>set (split_lines text).
            max_chars < int (length l) \<longrightarrow> l \<in> set (chunk_transcript text max_chars))"
proof (cases "text = [] \<or> int (length text) \<le> max_chars")
  case True
  have "\<not> max_chars < int (length l)" if "l \<in> set (split_lines text)" for l
    using split_lines_length_le [OF that] True assms by auto
  with True show ?thesis by (auto simp: chunk_transcript_def)
next
  case False
  then have cs: "chunk_transcript text max_chars = chunk_loop max_chars (split_lines text) [] [] 0"
    by (simp add: chunk_transcript_def)
  have chunk: "(max_chars < int (length c) \<longrightarrow>
               newline \<notin> set c \<and> split_lines c = [c] \<and> c \<in> set (split_lines text))
          \<and> (2 \<le> length (split_lines c) \<longrightarrow> int (length c) \<le> max_chars)"
    if "c \<in> set (chunk_loop max_chars (split_lines text) [] [] 0)" for c
  proof -
    from that obtain g where g: "g \<in> set (group_loop max_chars (split_lines text) [] [] 0)"
      and c: "c = join_lines g" by (rule chunk_loop_member)
    note sg = split_lines_group [OF g]
    have many: "int (length c) < max_chars" if "2 \<le> length g"
      using group_fits [OF g that] c by simp
    have single: "newline \<notin> set c \<and> split_lines c = [c] \<and> c \<in> set (split_lines text)"
      if "max_chars < int (length c)"
    proof -
      from that many have "\<not> 2 \<le> length g" by fastforce
      with sg(2) have "length g = 1" by (cases g) (auto simp: not_le)
      then obtain l where "g = [l]" by (auto simp: length_Suc_conv)
      with sg c show ?thesis using split_lines_no_newline [of l "text"] by auto
    qed
    from many single sg(1) c show ?thesis by force
  qed
  have line: "l \<in> set (chunk_loop max_chars (split_lines text) [] [] 0)"
    if "l \<in> set (split_lines text)" and "max_chars < int (length l)" for l
  proof -
    from long_line_own_group [OF that]
    have "join_lines [l] \<in> set (map join_lines (group_loop max_chars (split_lines text) [] [] 0))"
      unfolding set_map by (rule imageI)
    then show ?thesis unfolding chunk_loop_start by simp
  qed
  from chunk line show ?thesis unfolding cs by blast
qed

theorem chunk_transcript_long_line_witness:
  "(1::int) \<le> 5
   \<and> chunk_transcript ''ab\<newline>cdefgh\<newline>i\<newline>jk'' 5 = [''ab'', ''cdefgh'', ''i\<newline>jk'']
   \<and> newline \<notin> set ''cdefgh''
   \<and> ''cdefgh'' \<in> set (split_lines ''ab\<newline>cdefgh\<newline>i\<newline>jk'')
   \<and> int (length ''i\<newline>jk'') \<le> 5
   \<and> ''cdefgh'' \<in> set (chunk_transcript ''ab\<newline>cdefgh\<newline>i\<newline>jk'' 5)"
proof -
  have c: "chunk_transcript ''ab\<newline>cdefgh\<newline>i\<newline>jk'' 5 = [''ab'', ''cdefgh'', ''i\<newline>jk'']"
    by (simp add: chunk_transcript_def)
  have "(1::int) \<le> 5" by simp
  from chunk_transcript_long_line [OF this, of "''ab\<newline>cdefgh\<newline>i\<newline>jk''"] c
  show ?thesis by simp
qed

section \<open>Properties of the formatter\<close>

lemma format_loop_eq:
  "format_loop segs acc =
     acc @ map segment_line (filter (\<lambda>s. strip (seg_text s) \<noteq> []) segs)"
  by (induction segs arbitrary: acc) (simp_all add: Let_def segment_line_def)

lemma format_transcript_eq:
  "format_transcript segs =
     join_lines (map segment_line (filter (\<lambda>s. strip (seg_text s) \<noteq> []) segs))"
  by (simp add: format_transcript_def format_loop_eq)

lemma digit_char_0: "digit_char 0 = CHR ''0''"
  by (simp add: digit_char_def)

lemma str_nat_digit: "n < 10 \<Longrightarrow> str_nat n = [digit_char n]"
  by (simp add: str_nat.simps)

lemma str_nat_two: "10 \<le> n \<Longrightarrow> n < 100 \<Longrightarrow> str_nat n = two_digits n"
proof -
  assume a: "10 \<le> n" "n < 100"
  then have "n div 10 < 10" by simp
  then have "str_nat (n div 10) = [digit_char (n div 10)]" by (rule str_nat_digit)
  with a show ?thesis by (subst str_nat.simps) (simp add: two_digits_def)
qed

lemma fmt_02d_two: "0 \<le> n \<Longrightarrow> n < 100 \<Longrightarrow> fmt_02d n = two_digits (nat n)"
proof (cases "n < 10")
  case True
  assume "0 \<le> n"
  with True have "nat n < 10" by simp
  then have "str_nat (nat n) = [digit_char (nat n)]" "nat n div 10 = 0" "nat n mod 10 = nat n"
    by (simp_all add: str_nat_digit)
  with True \<open>0 \<le> n\<close> show ?thesis by (simp add: fmt_02d_def two_digits_def digit_char_0)
next
  case False
  assume "n < 100"
  with False have "10 \<le> nat n" "nat n < 100" by simp_all
  from str_nat_two [OF this] False show ?thesis by (simp add: fmt_02d_def)
qed

lemma fmt_02d_wide: "100 \<le> n \<Longrightarrow> fmt_02d n = str_nat (nat n)"
  by (simp add: fmt_02d_def)

lemma minutes_range: "0 \<le> (t::int) mod 3600 div 60" "(t::int) mod 3600 div 60 < 100"
proof -
  show "0 \<le> t mod 3600 div 60" by (simp add: pos_imp_zdiv_nonneg_iff)
  have "t mod 3600 < 3600" by simp
  then have "t mod 3600 div 60 < 60" by linarith
  then show "t mod 3600 div 60 < 100" by simp
qed

lemma seconds_range: "0 \<le> (t::int) mod 60" "(t::int) mod 60 < 100"
proof -
  show "0 \<le> t mod 60" by simp
  have "t mod 60 < 60" by simp
  then show "t mod 60 < 100" by linarith
qed

lemma timestamp_minutes:
  assumes "py_int x < 3600"
  shows "seconds_to_timestamp x =
     two_digits (nat (py_int x mod 3600 div 60)) @ '':'' @ two_digits (nat (py_int x mod 60))"
proof -
  let ?t = "py_int x"
  have h: "\<not> ?t div 3600 > 0" using assms by (simp add: pos_imp_zdiv_pos_iff)
  note m = minutes_range [of ?t] and s = seconds_range [of ?t]
  show ?thesis using h by (simp add: seconds_to_timestamp_def Let_def fmt_02d_two [OF m] fmt_02d_two [OF s])
qed


lemma timestamp_hours:
  assumes "3600 \<le> py_int x"
  shows "seconds_to_timestamp x =
     fmt_02d (py_int x div 3600) @ '':'' @
     two_digits (nat (py_int x mod 3600 div 60)) @ '':'' @ two_digits (nat (py_int x mod 60))"
proof -
  let ?t = "py_int x"
  have h: "?t div 3600 > 0" using assms by (simp add: pos_imp_zdiv_pos_iff)
  note m = minutes_range [of ?t] and s = seconds_range [of ?t]
  show ?thesis using h by (simp add: seconds_to_timestamp_def Let_def fmt_02d_two [OF m] fmt_02d_two [OF s])
qed

lemma py_int_floor: "0 \<le> x \<Longrightarrow> py_int x = \<lfloor>x\<rfloor>"
  by (simp add: py_int_def)

lemma py_int_of_int: "py_int (of_int n) = n"
  by (simp add: py_int_def)

lemma timestamp_truncates:
  "0 \<le> x \<Longrightarrow> seconds_to_timestamp x = seconds_to_timestamp (of_int \<lfloor>x\<rfloor>)"
  by (simp add: seconds_to_timestamp_def py_int_of_int py_int_floor)

lemma strip_empty_iff: "strip t = [] \<longleftrightarrow> (\<forall>c\<in>set t. is_space c)"
proof
  assume "strip t = []"
  then have "dropWhile is_space (rev (dropWhile is_space t)) = []"
    by (simp add: strip_def)
  then have a: "\<forall>c\<in>set (dropWhile is_space t). is_space c"
    by (simp add: dropWhile_eq_Nil_conv)
  have "dropWhile is_space t = []"
  proof (rule ccontr)
    assume "dropWhile is_space t \<noteq> []"
    then have "\<not> is_space (hd (dropWhile is_space t))" "hd (dropWhile is_space t) \<in> set (dropWhile is_space t)"
      by (simp_all add: hd_dropWhile)
    with a show False by blast
  qed
  then show "\<forall>c\<in>set t. is_space c" by (simp add: dropWhile_eq_Nil_conv)
next
  assume "\<forall>c\<in>set t. is_space c"
  then have "dropWhile is_space t = []" by (simp only: dropWhile_eq_Nil_conv)
  then have "strip t = rev (dropWhile is_space (rev []))" by (simp only: strip_def)
  then show "strip t = []" by simp
qed

lemma format_transcript_all_blank:
  "\<forall>s\<in>set segs. strip (seg_text s) = [] \<Longrightarrow> format_transcript segs = []"
proof -
  assume "\<forall>s\<in>set segs. strip (seg_text s) = []"
  then have "filter (\<lambda>s. strip (seg_text s) \<noteq> []) segs = []" by (simp add: filter_empty_conv)
  then show ?thesis by (simp add: format_transcript_eq)
qed

lemmas format_eval =
  format_transcript_def seconds_to_timestamp_def py_int_def fmt_02d_def strip_def
  is_space_def digit_char_def str_nat.simps

subsection \<open>The digits of a number\<close>

text \<open>
  \<^const>\<open>str_nat\<close> prints the decimal numeral of its argument: digits only, no zero in
  front, and the value read back is the argument.
\<close>

lemma digit_cases: "d < 10 \<Longrightarrow> d \<in> {0, 1, 2, 3, 4, 5, 6, 7, 8, 9}" for d :: nat
  by auto

lemma digit_value_digit_char: "d < 10 \<Longrightarrow> digit_value (digit_char d) = d"
  by (drule digit_cases) (auto simp: digit_char_def digit_value_def)

lemma digit_char_digit: "d < 10 \<Longrightarrow> digit_char d \<in> set ''0123456789''"
  by (drule digit_cases) (auto simp: digit_char_def)

lemma digit_char_not_newline: "d < 10 \<Longrightarrow> digit_char d \<noteq> newline"
  by (drule digit_cases) (auto simp: digit_char_def)

lemma decimal_value_snoc: "decimal_value (s @ [c]) = 10 * decimal_value s + digit_value c"
  by (simp add: decimal_value_def)

lemma decimal_value_str_nat: "decimal_value (str_nat n) = n"
proof (induction n rule: str_nat.induct)
  case (1 n)
  show ?case
  proof (cases "n < 10")
    case True
    then show ?thesis by (simp add: str_nat_digit decimal_value_def digit_value_digit_char)
  next
    case False
    then have "str_nat n = str_nat (n div 10) @ [digit_char (n mod 10)]"
      by (subst str_nat.simps) simp
    with 1 [OF False] show ?thesis
      by (simp add: decimal_value_snoc digit_value_digit_char)
  qed
qed

lemma str_nat_digits: "c \<in> set (str_nat n) \<Longrightarrow> c \<in> set ''0123456789''"
proof (induction n rule: str_nat.induct)
  case (1 n)
  show ?case
  proof (cases "n < 10")
    case True
    with 1(2) digit_char_digit [of n] show ?thesis by (simp add: str_nat_digit)
  next
    case False
    then have "str_nat n = str_nat (n div 10) @ [digit_char (n mod 10)]"
      by (subst str_nat.simps) simp
    with 1(2) have "c \<in> set (str_nat (n div 10)) \<or> c = digit_char (n mod 10)" by auto
    with 1(1) [OF False] digit_char_digit [of "n mod 10"] show ?thesis by auto
  qed
qed

lemma str_nat_not_Nil: "str_nat n \<noteq> []"
  by (subst str_nat.simps) simp

lemma str_nat_no_leading_zero: "0 < n \<Longrightarrow> hd (str_nat n) \<noteq> CHR ''0''"
proof (induction n rule: str_nat.induct)
  case (1 n)
  show ?case
  proof (cases "n < 10")
    case True
    with 1(2) digit_value_digit_char [of n] have "digit_value (digit_char n) \<noteq> 0" by simp
    then have "digit_char n \<noteq> CHR ''0''" by (auto simp: digit_value_def)
    with True show ?thesis by (simp add: str_nat_digit)
  next
    case False
    then have "str_nat n = str_nat (n div 10) @ [digit_char (n mod 10)]"
      by (subst str_nat.simps) simp
    moreover from False have "0 < n div 10" by simp
    ultimately show ?thesis using 1(1) [OF False] str_nat_not_Nil [of "n div 10"] by simp
  qed
qed

lemma length_str_nat: "100 \<le> n \<Longrightarrow> 3 \<le> length (str_nat n)"
proof -
  assume a: "100 \<le> n"
  then have "str_nat n = str_nat (n div 10) @ [digit_char (n mod 10)]"
    by (subst str_nat.simps) simp
  moreover from a have "10 \<le> n div 10" by simp
  then have "str_nat (n div 10) = str_nat (n div 10 div 10) @ [digit_char (n div 10 mod 10)]"
    by (subst str_nat.simps) simp
  ultimately show ?thesis using str_nat_not_Nil [of "n div 10 div 10"]
    by (cases "str_nat (n div 10 div 10)") simp_all
qed

subsection \<open>Lines and timestamps\<close>

text \<open>
  For every segment list, \<^const>\<open>format_transcript\<close> is the newline-join, in input
  order, of the texts \<^verbatim>\<open>[timestamp] text\<close> of the segments whose stripped text is not
  empty (a text strips to nothing exactly when it is all whitespace), and the
  result is empty when no segment has text. The timestamp of a start \<open>x\<close> is built
  from the truncated seconds \<^term>\<open>py_int x\<close>: two-digit minutes and seconds below one
  hour, hours in front otherwise, with two digits up to 99 hours and beyond that
  the decimal numeral of the hours, of three digits or more; for \<open>x \<ge> 0\<close> the
  truncation is the floor, so the fraction of a second never shows. Start 65 gives
  \<^verbatim>\<open>[01:05] hi\<close> and start 3661 gives \<^verbatim>\<open>[01:01:01] hi\<close>.
\<close>

lemma format_transcript_shape:
  "format_transcript segments =
     join_lines (map segment_line (filter (\<lambda>s. strip (seg_text s) \<noteq> []) segments))
   \<and> (\<forall>s. segment_line s = ''['' @ seconds_to_timestamp (seg_start s) @ ''] '' @ strip (seg_text s))
   \<and> (\<forall>t. strip t = [] \<longleftrightarrow> (\<forall>c\<in>set t. is_space c))
   \<and> ((\<forall>s\<in>set segments. strip (seg_text s) = []) \<longrightarrow> format_transcript segments = [])
   \<and> (py_int x < 3600 \<longrightarrow>
        seconds_to_timestamp x =
          two_digits (nat (py_int x mod 3600 div 60)) @ '':'' @ two_digits (nat (py_int x mod 60)))
   \<and> (3600 \<le> py_int x \<and> py_int x < 360000 \<longrightarrow>
        seconds_to_timestamp x =
          two_digits (nat (py_int x div 3600)) @ '':'' @
          two_digits (nat (py_int x mod 3600 div 60)) @ '':'' @ two_digits (nat (py_int x mod 60)))
   \<and> (360000 \<le> py_int x \<longrightarrow>
        (\<exists>h. seconds_to_timestamp x =
               h @ '':'' @ two_digits (nat (py_int x mod 3600 div 60)) @ '':'' @
               two_digits (nat (py_int x mod 60))
           \<and> decimal_value h = nat (py_int x div 3600) \<and> 3 \<le> length h
           \<and> (\<forall>c\<in>set h. c \<in> set ''0123456789'') \<and> hd h \<noteq> CHR ''0''))
   \<and> (0 \<le> x \<longrightarrow> py_int x = \<lfloor>x\<rfloor> \<and> seconds_to_timestamp x = seconds_to_timestamp (of_int \<lfloor>x\<rfloor>))
   \<and> format_transcript [\<lparr>seg_text = ''hi'', seg_start = 65, seg_duration = 2\<rparr>] = ''[01:05] hi''
   \<and> format_transcript [\<lparr>seg_text = ''hi'', seg_start = 3661, seg_duration = 1\<rparr>] = ''[01:01:01] hi''"
proof -
  have hours: "fmt_02d (py_int x div 3600) = two_digits (nat (py_int x div 3600))"
    if "3600 \<le> py_int x" "py_int x < 360000"
  proof -
    from that(1) have "0 \<le> py_int x div 3600" by (simp add: pos_imp_zdiv_nonneg_iff)
    moreover from that(2) have "py_int x div 3600 < 100" by linarith
    ultimately show ?thesis by (rule fmt_02d_two)
  qed
  have mid: "seconds_to_timestamp x =
          two_digits (nat (py_int x div 3600)) @ '':'' @
          two_digits (nat (py_int x mod 3600 div 60)) @ '':'' @ two_digits (nat (py_int x mod 60))"
    if "3600 \<le> py_int x" "py_int x < 360000"
    using timestamp_hours [OF that(1)] hours [OF that] by simp
  have wide: "\<exists>h. seconds_to_timestamp x =
               h @ '':'' @ two_digits (nat (py_int x mod 3600 div 60)) @ '':'' @
               two_digits (nat (py_int x mod 60))
           \<and> decimal_value h = nat (py_int x div 3600) \<and> 3 \<le> length h
           \<and> (\<forall>c\<in>set h. c \<in> set ''0123456789'') \<and> hd h \<noteq> CHR ''0''"
    if "360000 \<le> py_int x"
  proof -
    let ?h = "nat (py_int x div 3600)"
    from that have h: "100 \<le> py_int x div 3600" by linarith
    then have "fmt_02d (py_int x div 3600) = str_nat ?h" by (rule fmt_02d_wide)
    moreover from that have "3600 \<le> py_int x" by simp
    ultimately have "seconds_to_timestamp x =
        str_nat ?h @ '':'' @ two_digits (nat (py_int x mod 3600 div 60)) @ '':'' @
        two_digits (nat (py_int x mod 60))"
      by (simp add: timestamp_hours)
    moreover from h have "100 \<le> ?h" by simp
    then have "3 \<le> length (str_nat ?h)" "hd (str_nat ?h) \<noteq> CHR ''0''"
      by (simp_all add: length_str_nat str_nat_no_leading_zero)
    moreover have "\<forall>c\<in>set (str_nat ?h). c \<in> set ''0123456789''"
      using str_nat_digits by blast
    ultimately show ?thesis using decimal_value_str_nat [of ?h] by blast
  qed
  have e1: "format_transcript [\<lparr>seg_text = ''hi'', seg_start = 65, seg_duration = 2\<rparr>] = ''[01:05] hi''"
    by (simp add: format_eval)
  have e2: "format_transcript [\<lparr>seg_text = ''hi'', seg_start = 3661, seg_duration = 1\<rparr>] = ''[01:01:01] hi''"
    by (simp add: format_eval)
  have shape: "\<forall>s. segment_line s = ''['' @ seconds_to_timestamp (seg_start s) @ ''] '' @ strip (seg_text s)"
    by (simp add: segment_line_def)
  have blank: "\<forall>t. strip t = [] \<longleftrightarrow> (\<forall>c\<in>set t. is_space c)"
    using strip_empty_iff by blast
  have trunc: "0 \<le> x \<longrightarrow> py_int x = \<lfloor>x\<rfloor> \<and> seconds_to_timestamp x = seconds_to_timestamp (of_int \<lfloor>x\<rfloor>)"
    using py_int_floor [of x] timestamp_truncates [of x] by blast
  from format_transcript_eq [of segments] shape blank format_transcript_all_blank [of segments]
    timestamp_minutes [of x] mid wide trunc e1 e2
  show ?thesis by (intro conjI impI) (auto simp only:)
qed

text \<open>The formatter on three segments, and timestamps on either side of the hour.\<close>

lemma format_transcript_examples:
  "format_transcript
     [\<lparr>seg_text = '' hi  '', seg_start = 65.9, seg_duration = 2\<rparr>,
      \<lparr>seg_text = '' \<newline> '', seg_start = 70, seg_duration = 1\<rparr>,
      \<lparr>seg_text = ''yo'', seg_start = 3661, seg_duration = 1\<rparr>]
     = ''[01:05] hi\<newline>[01:01:01] yo''
   \<and> format_transcript [\<lparr>seg_text = '' \<newline> '', seg_start = 70, seg_duration = 1\<rparr>] = []
   \<and> py_int 65.9 = 65
   \<and> seconds_to_timestamp 65.9 = ''01:05''
   \<and> seconds_to_timestamp 3661 = ''01:01:01''
   \<and> seconds_to_timestamp 360000 = ''100:00:00''
   \<and> seconds_to_timestamp 399600 = ''111:00:00''"
  by (simp add: format_eval)

text \<open>No timestamp holds a newline.\<close>

lemma fmt_02d_chars: "c \<in> set (fmt_02d n) \<Longrightarrow> c \<in> set ''-0123456789''"
  by (auto simp: fmt_02d_def dest: str_nat_digits split: if_splits)

lemma timestamp_chars: "c \<in> set (seconds_to_timestamp x) \<Longrightarrow> c \<in> set ''-0123456789:''"
  by (auto simp: seconds_to_timestamp_def Let_def dest!: fmt_02d_chars split: if_splits)

lemma timestamp_no_newline: "newline \<notin> set (seconds_to_timestamp x)"
  using timestamp_chars [of newline x] by auto

lemma segment_line_no_newline:
  "newline \<notin> set (strip (seg_text s)) \<Longrightarrow> newline \<notin> set (segment_line s)"
  using timestamp_no_newline [of "seg_start s"] by (simp add: segment_line_def)

text \<open>
  One line for each segment that is kept, as long as no trimmed text holds a
  newline.
\<close>

lemma format_transcript_one_line_each:
  assumes "\<forall>s\<in>set segments. newline \<notin> set (strip (seg_text s))"
    and "\<exists>s\<in>set segments. strip (seg_text s) \<noteq> []"
  shows "split_lines (format_transcript segments) =
     map segment_line (filter (\<lambda>s. strip (seg_text s) \<noteq> []) segments)"
proof -
  let ?kept = "filter (\<lambda>s. strip (seg_text s) \<noteq> []) segments"
  from assms(2) have "map segment_line ?kept \<noteq> []" by (auto simp: filter_empty_conv)
  moreover from assms(1) have "\<forall>l\<in>set (map segment_line ?kept). newline \<notin> set l"
    using segment_line_no_newline by auto
  ultimately have "split_lines (join_lines (map segment_line ?kept)) = map segment_line ?kept"
    by (rule split_join_lines)
  then show ?thesis by (simp only: format_transcript_eq)
qed

text \<open>
  Claim C8. \<^const>\<open>format_transcript\<close> produces one line \<^verbatim>\<open>[timestamp] text\<close> for each
  segment whose trimmed text is not empty. The code does so as long as no trimmed
  text holds a newline (lemma \<open>format_transcript_one_line_each\<close>, with the timestamps
  of lemma \<open>format_transcript_shape\<close>). But \<^verbatim>\<open>strip()\<close> trims the two ends only and
  the text is copied as it is: a caption of two lines becomes two lines of the
  result, the second one without a timestamp, where the docstring promises a
  single string with one line per segment.
\<close>

theorem format_transcript_newline_in_text:
  "format_transcript [\<lparr>seg_text = ''a\<newline>b'', seg_start = 0, seg_duration = 1\<rparr>]
     = ''[00:00] a\<newline>b''
   \<and> split_lines (format_transcript [\<lparr>seg_text = ''a\<newline>b'', seg_start = 0, seg_duration = 1\<rparr>])
       = [''[00:00] a'', ''b'']
   \<and> strip ''a\<newline>b'' = ''a\<newline>b''"
  by (simp add: format_eval)


section \<open>Properties of the ID extractor\<close>

subsection \<open>A result is a well-formed video ID\<close>

lemma strip_last_not_space: "strip s \<noteq> [] \<Longrightarrow> \<not> is_space (last (strip s))"
proof -
  assume ne: "strip s \<noteq> []"
  let ?d = "dropWhile is_space (rev (dropWhile is_space s))"
  from ne have "?d \<noteq> []" by (simp add: strip_def)
  then have "\<not> is_space (hd ?d)" by (rule hd_dropWhile)
  moreover have "last (strip s) = hd ?d" using \<open>?d \<noteq> []\<close> by (simp add: strip_def last_rev)
  ultimately show ?thesis by simp
qed

lemma is_space_newline: "is_space newline"
  by (simp add: is_space_def)

lemma bare_match_iff:
  "re_match BARE_ID_PATTERN text \<longleftrightarrow>
     (length (take 11 text) = 11 \<and> list_all is_id_char (take 11 text) \<and>
      (length text = 11 \<or> (length text = 12 \<and> text ! 11 = newline)))"
  by (auto simp: re_match_def BARE_ID_PATTERN_def)

lemma bare_match_strip:
  assumes "re_match BARE_ID_PATTERN (strip s)"
  shows "length (strip s) = 11 \<and> (\<forall>c\<in>set (strip s). is_id_char c)"
proof -
  let ?t = "strip s"
  from assms have a: "list_all is_id_char (take 11 ?t)"
    and b: "length ?t = 11 \<or> (length ?t = 12 \<and> ?t ! 11 = newline)"
    by (simp_all add: bare_match_iff)
  have "length ?t = 11"
  proof (rule ccontr)
    assume "length ?t \<noteq> 11"
    with b have l: "length ?t = 12" and n: "?t ! 11 = newline" by auto
    from l have "?t \<noteq> []" by auto
    then have "\<not> is_space (last ?t)" by (rule strip_last_not_space)
    moreover from l n \<open>?t \<noteq> []\<close> have "last ?t = newline" by (simp add: last_conv_nth)
    ultimately show False by (simp add: is_space_newline)
  qed
  with a show ?thesis by (simp add: list_all_iff)
qed

lemma first_of_list:
  "(case xs of [] \<Rightarrow> None | g # _ \<Rightarrow> Some g) = Some g \<Longrightarrow> g \<in> set xs"
  by (cases xs) auto

lemma group_at_id:
  assumes "group_at (Pattern pre (IdChars n)) text i = Some g"
  shows "length g = n \<and> (\<forall>c\<in>set g. is_id_char c)"
proof -
  let ?gs = "concat (map (\<lambda>j. map (\<lambda>k. take (k - j) (drop j text)) (matches (IdChars n) text j))
                   (matches pre text i))"
  from assms have "(case ?gs of [] \<Rightarrow> None | g # _ \<Rightarrow> Some g) = Some g"
    by (simp only: group_at.simps)
  then have "g \<in> set ?gs" by (rule first_of_list)
  then obtain j k where "k \<in> set (matches (IdChars n) text j)" and "g = take (k - j) (drop j text)"
    by (auto simp del: matches.simps)
  then show ?thesis by (auto simp: list_all_iff split: if_splits)
qed

lemma first_match_Some:
  "first_match p text is = Some g \<Longrightarrow> \<exists>i. group_at p text i = Some g"
  by (induction "is") (auto split: option.splits)

lemma try_patterns_Inr:
  "try_patterns ps text = Inr g \<Longrightarrow> \<exists>p\<in>set ps. re_search p text = Some g"
  by (induction ps) (auto split: option.splits)

lemma try_patterns_not_other:
  "try_patterns ps text = Inl e \<Longrightarrow> e = ValueError"
  by (induction ps) (auto split: option.splits)

lemma youtube_patterns_group:
  "p \<in> set YOUTUBE_PATTERNS \<Longrightarrow> \<exists>pre. p = Pattern pre (IdChars 11)"
  by (auto simp: YOUTUBE_PATTERNS_def watch_pattern_def short_pattern_def shorts_pattern_def
      embed_pattern_def live_pattern_def)

lemma extract_video_id_wellformed:
  assumes "extract_video_id s = Inr v"
  shows "length v = 11 \<and> (\<forall>c\<in>set v. is_id_char c)"
proof (cases "re_match BARE_ID_PATTERN (strip s)")
  case True
  with assms have "v = strip s" by (simp add: extract_video_id_def extract_video_id_with_def)
  with bare_match_strip [OF True] show ?thesis by simp
next
  case False
  with assms have "try_patterns YOUTUBE_PATTERNS (strip s) = Inr v"
    by (simp add: extract_video_id_def extract_video_id_with_def)
  then obtain p where "p \<in> set YOUTUBE_PATTERNS" and "re_search p (strip s) = Some v"
    by (auto dest: try_patterns_Inr)
  then obtain pre i where "group_at (Pattern pre (IdChars 11)) (strip s) i = Some v"
    by (auto simp: re_search_def dest!: first_match_Some youtube_patterns_group)
  then show ?thesis by (rule group_at_id)
qed

subsection \<open>Where a pattern cannot match\<close>

lemma matches_mono: "j \<in> set (matches r text i) \<Longrightarrow> i \<le> j"
  by (induction r arbitrary: i j) (fastforce split: if_splits)+

lemma matches_needs_char:
  "needs_char c r \<Longrightarrow> c \<notin> set (drop i text) \<Longrightarrow> matches r text i = []"
proof (induction r arbitrary: i)
  case (Lit l)
  have "take (length l) (drop i text) \<noteq> l"
  proof
    assume "take (length l) (drop i text) = l"
    then have "set l \<subseteq> set (drop i text)" by (metis set_take_subset)
    with Lit show False by auto
  qed
  then show ?case by simp
next
  case (Seq r1 r2)
  show ?case
  proof (cases "needs_char c r1")
    case True
    with Seq have "matches r1 text i = []" by blast
    then show ?thesis by simp
  next
    case False
    with Seq.prems have n2: "needs_char c r2" by simp
    have "matches r2 text j = []" if "j \<in> set (matches r1 text i)" for j
    proof -
      from that have "i \<le> j" by (rule matches_mono)
      then have "set (drop j text) \<subseteq> set (drop i text)" by (rule set_drop_subset_set_drop)
      with Seq.prems have "c \<notin> set (drop j text)" by blast
      with n2 show ?thesis by (rule Seq.IH)
    qed
    then show ?thesis by simp
  qed
qed simp_all

lemma group_at_needs_char:
  "needs_char c pre \<Longrightarrow> c \<notin> set (drop i text) \<Longrightarrow> group_at (Pattern pre grp) text i = None"
  by (simp add: matches_needs_char)

lemma first_match_None:
  "(\<And>i. i \<in> set is \<Longrightarrow> group_at p text i = None) \<Longrightarrow> first_match p text is = None"
  by (induction "is") auto

lemma re_search_at_0:
  "group_at p text 0 = Some g \<Longrightarrow> re_search p text = Some g"
  by (simp add: re_search_def upt_conv_Cons del: upt_Suc)

lemma slash_not_id: "\<not> is_id_char CHR ''/''"
  by (simp add: is_id_char_def)

text \<open>Nothing matches from inside a tail of identifier characters.\<close>

lemma group_at_in_tail:
  assumes "needs_char CHR ''/'' pre" and "\<forall>c\<in>set seg. is_id_char c" and "length P \<le> i"
  shows "group_at (Pattern pre grp) (P @ seg) i = None"
proof -
  from assms(3) have "set (drop i (P @ seg)) \<subseteq> set seg" by (auto dest: in_set_dropD)
  with assms(2) slash_not_id have "CHR ''/'' \<notin> set (drop i (P @ seg))" by blast
  with assms(1) show ?thesis by (rule group_at_needs_char)
qed

lemma re_search_None:
  assumes "needs_char CHR ''/'' pre" and "\<forall>c\<in>set seg. is_id_char c"
    and "\<And>i. i \<in> set [0..<length P] \<Longrightarrow> group_at (Pattern pre grp) (P @ seg) i = None"
  shows "re_search (Pattern pre grp) (P @ seg) = None"
  unfolding re_search_def
proof (rule first_match_None)
  fix i assume "i \<in> set [0..<Suc (length (P @ seg))]"
  show "group_at (Pattern pre grp) (P @ seg) i = None"
  proof (cases "i < length P")
    case True
    then show ?thesis by (intro assms(3)) simp
  next
    case False
    then show ?thesis by (intro group_at_in_tail assms) simp
  qed
qed

lemmas pattern_defs = watch_pattern_def short_pattern_def shorts_pattern_def embed_pattern_def
  live_pattern_def scheme_def www_def

lemma group_at_in_tail':
  assumes "needs_char CHR ''/'' pre" and "CHR ''/'' \<notin> set T" and "length P \<le> i"
  shows "group_at (Pattern pre grp) (P @ T) i = None"
proof -
  from assms(3) have "set (drop i (P @ T)) \<subseteq> set T" by (auto dest: in_set_dropD)
  with assms(2) have "CHR ''/'' \<notin> set (drop i (P @ T))" by blast
  with assms(1) show ?thesis by (rule group_at_needs_char)
qed

lemma re_search_None_list:
  assumes "needs_char CHR ''/'' pre" and "CHR ''/'' \<notin> set T"
    and "list_all (\<lambda>i. group_at (Pattern pre grp) (P @ T) i = None) [0..<length P]"
  shows "re_search (Pattern pre grp) (P @ T) = None"
  unfolding re_search_def
proof (rule first_match_None)
  fix i assume "i \<in> set [0..<Suc (length (P @ T))]"
  show "group_at (Pattern pre grp) (P @ T) i = None"
  proof (cases "i < length P")
    case True
    with assms(3) show ?thesis unfolding list_all_iff by simp
  next
    case False
    then show ?thesis by (intro group_at_in_tail' assms) simp
  qed
qed

lemma list_all_with_scheme:
  "list_all Q (with_scheme hs) \<longleftrightarrow>
     list_all (\<lambda>h. Q (''https://'' @ h)) hs \<and> list_all (\<lambda>h. Q (''http://'' @ h)) hs \<and> list_all Q hs"
  by (auto simp: with_scheme_def list_all_iff)

lemmas prefix_defs = watch_prefixes_def short_prefixes_def shorts_prefixes_def
  embed_prefixes_def live_prefixes_def

lemmas prefix_cases = prefix_defs list_all_append list_all_with_scheme list.pred_inject

lemma watch_pattern_elsewhere:
  assumes "CHR ''/'' \<notin> set T"
  shows "list_all (\<lambda>P. re_search watch_pattern (P @ T) = None)
           (short_prefixes @ shorts_prefixes @ embed_prefixes @ live_prefixes)"
  unfolding prefix_cases watch_pattern_def
  by (intro conjI TrueI re_search_None_list) (simp_all add: pattern_defs assms)

lemma short_pattern_elsewhere:
  assumes "CHR ''/'' \<notin> set T"
  shows "list_all (\<lambda>P. re_search short_pattern (P @ T) = None)
           (shorts_prefixes @ embed_prefixes @ live_prefixes)"
  unfolding prefix_cases short_pattern_def
  by (intro conjI TrueI re_search_None_list) (simp_all add: pattern_defs assms)

lemma shorts_pattern_elsewhere:
  assumes "CHR ''/'' \<notin> set T"
  shows "list_all (\<lambda>P. re_search shorts_pattern (P @ T) = None) (embed_prefixes @ live_prefixes)"
  unfolding prefix_cases shorts_pattern_def
  by (intro conjI TrueI re_search_None_list) (simp_all add: pattern_defs assms)

lemma embed_pattern_elsewhere:
  assumes "CHR ''/'' \<notin> set T"
  shows "list_all (\<lambda>P. re_search embed_pattern (P @ T) = None) live_prefixes"
  unfolding prefix_cases embed_pattern_def
  by (intro conjI TrueI re_search_None_list) (simp_all add: pattern_defs assms)

subsection \<open>The watch pattern and its greedy \<^verbatim>\<open>.*\<close>\<close>

lemma concat_map_concat:
  "concat (map f (concat xss)) = concat (map (\<lambda>xs. concat (map f xs)) xss)"
  by (induction xss) simp_all

lemma matches_Seq_assoc:
  "matches (Seq (Seq a b) c) text i = matches (Seq a (Seq b c)) text i"
proof -
  have "matches (Seq (Seq a b) c) text i
      = concat (map (matches c text) (concat (map (matches b text) (matches a text i))))"
    by simp
  also have "\<dots> = concat (map (\<lambda>j. concat (map (matches c text) (matches b text j))) (matches a text i))"
    by (simp add: concat_map_concat comp_def)
  also have "\<dots> = matches (Seq a (Seq b c)) text i"
  proof -
    have "matches (Seq b c) text = (\<lambda>j. concat (map (matches c text) (matches b text j)))"
      by (rule ext) simp
    then show ?thesis by simp
  qed
  finally show ?thesis .
qed

lemma matches_Seq_v:
  "j \<in> set (matches (Seq r (Lit ''v='')) text i) \<Longrightarrow>
     \<exists>k\<in>set (matches r text i). j = k + 2 \<and> take 2 (drop k text) = ''v=''"
  by (auto split: if_splits simp: numeral_2_eq_2)

lemma matches_AnyStar_ge: "k \<in> set (matches AnyStar text i) \<Longrightarrow> i \<le> k"
  by (rule matches_mono)

lemma matches_AnyStar_first: "i \<in> set (matches AnyStar text i)"
proof -
  have "0 \<in> set (rev [0..<Suc (length (takeWhile (\<lambda>c. c \<noteq> newline) (drop i text)))])"
    by simp
  then have "i + 0 \<in> set (matches AnyStar text i)"
    unfolding matches.simps set_map by (rule imageI)
  then show ?thesis by simp
qed

lemma drop_past: "drop (length P + m) (P @ T) = drop m T"
  by simp

lemma IdChars_empty_iff:
  "matches (IdChars n) text j = [] \<longleftrightarrow>
     \<not> (length (take n (drop j text)) = n \<and> list_all is_id_char (take n (drop j text)))"
  by simp

lemma concat_map_nonempty: "x \<in> set xs \<Longrightarrow> f x = [a] \<Longrightarrow> concat (map f xs) \<noteq> []"
  by (induction xs) auto

lemma concat_map_member:
  "g \<in> set (concat (map f xs)) \<Longrightarrow> \<exists>x\<in>set xs. g \<in> set (f x)"
  by (induction xs) auto

lemma all_same_first:
  "xs \<noteq> [] \<Longrightarrow> \<forall>x\<in>set xs. x = a \<Longrightarrow> (case xs of [] \<Rightarrow> None | g # _ \<Rightarrow> Some g) = Some a"
  by (cases xs) auto

text \<open>After the text \<open>Q\<close> up to \<^verbatim>\<open>watch?\<close>, the parameter \<^verbatim>\<open>v=\<close> and a tail.\<close>

lemma watch_group:
  fixes Q T :: string
  defines "text \<equiv> (Q @ ''v='') @ T"
  assumes pre: "matches pre text 0 = [length Q]"
    and len: "11 \<le> length T" and ids: "list_all is_id_char (take 11 T)"
    and later: "\<And>j. matches (Seq (Lit ''v='') (IdChars 11)) T j = []"
  shows "group_at (Pattern (Seq pre (Seq AnyStar (Lit ''v=''))) (IdChars 11)) text 0
           = Some (take 11 T)"
proof -
  let ?a = "length Q"
  let ?js = "matches (Seq pre (Seq AnyStar (Lit ''v=''))) text 0"
  let ?F = "\<lambda>j. map (\<lambda>k. take (k - j) (drop j text)) (matches (IdChars 11) text j)"
  have js: "?js = matches (Seq AnyStar (Lit ''v='')) text ?a"
    using pre by simp
  have at_P: "?F (?a + 2) = [take 11 T]"
    using len ids by (simp add: text_def)
  have here: "?a + 2 \<in> set ?js"
  proof -
    have "matches (Lit ''v='') text ?a = [?a + 2]" by (simp add: text_def)
    with matches_AnyStar_first [of ?a "text"] show ?thesis
      unfolding js by (simp del: matches.simps(1,3)) (metis list.set_intros(1))
  qed
  have other: "?F j = []" if "j \<in> set ?js" "j \<noteq> ?a + 2" for j
  proof -
    from that(1) obtain k where k: "k \<in> set (matches AnyStar text ?a)" "j = k + 2"
      and v: "take 2 (drop k text) = ''v=''"
      unfolding js by (blast dest: matches_Seq_v)
    from k(1) have "?a \<le> k" by (rule matches_AnyStar_ge)
    moreover have "k \<noteq> ?a + 1"
    proof
      assume "k = ?a + 1"
      then have "drop k text = CHR ''='' # T" by (simp add: text_def)
      with v show False by simp
    qed
    ultimately have ge: "?a + 2 \<le> k" using that(2) k(2) by linarith
    then obtain n where n: "k = ?a + 2 + n" by (auto simp: le_iff_add)
    have "k = length (Q @ ''v='') + n" and "j = length (Q @ ''v='') + (n + 2)"
      using n k(2) by simp_all
    then have dk: "drop k text = drop n T" and dj: "drop j text = drop (n + 2) T"
      unfolding text_def by (simp_all only: drop_past)
    from v have "matches (Lit ''v='') T n = [n + 2]"
      by (simp add: dk numeral_2_eq_2)
    then have "matches (Seq (Lit ''v='') (IdChars 11)) T n = matches (IdChars 11) T (n + 2)"
      by (simp del: matches.simps(1,2))
    with later [of n] have "matches (IdChars 11) T (n + 2) = []" by (simp only:)
    then have "matches (IdChars 11) text j = []" unfolding IdChars_empty_iff dj .
    then show ?thesis by simp
  qed
  have "concat (map ?F ?js) \<noteq> []" using here at_P by (rule concat_map_nonempty)
  moreover have "\<forall>g\<in>set (concat (map ?F ?js)). g = take 11 T"
  proof
    fix g assume "g \<in> set (concat (map ?F ?js))"
    then obtain j where j: "j \<in> set ?js" "g \<in> set (?F j)"
      by (blast dest: concat_map_member)
    have "j = ?a + 2"
    proof (rule ccontr)
      assume "j \<noteq> ?a + 2"
      with j(1) have "?F j = []" by (rule other)
      with j(2) show False by (simp only: list.set empty_iff)
    qed
    with j(2) at_P show "g = take 11 T" by (simp only: list.set insert_iff empty_iff simp_thms)
  qed
  ultimately have "(case concat (map ?F ?js) of [] \<Rightarrow> None | g # _ \<Rightarrow> Some g) = Some (take 11 T)"
    by (rule all_same_first)
  then show ?thesis by (simp only: group_at.simps)
qed

lemma watch_prefix_assoc:
  "matches (Seq a (Seq b (Seq c d))) text i = matches (Seq (Seq a (Seq b c)) d) text i"
proof -
  have "matches (Seq (Seq b c) d) text = matches (Seq b (Seq c d)) text"
    by (rule ext) (rule matches_Seq_assoc)
  then have "matches (Seq a (Seq (Seq b c) d)) text i = matches (Seq a (Seq b (Seq c d))) text i"
    by simp
  then show ?thesis by (simp only: matches_Seq_assoc)
qed

lemma group_at_cong:
  "matches pre text i = matches pre' text i \<Longrightarrow>
     group_at (Pattern pre g) text i = group_at (Pattern pre' g) text i"
  by simp

lemma watch_hit_one:
  assumes "matches (Seq scheme (Seq www (Lit ''youtube.com/watch?''))) ((Q @ ''v='') @ T) 0 = [length Q]"
    and "11 \<le> length T" and "list_all is_id_char (take 11 T)"
    and "\<And>j. matches (Seq (Lit ''v='') (IdChars 11)) T j = []"
  shows "group_at watch_pattern ((Q @ ''v='') @ T) 0 = Some (take 11 T)"
proof -
  have "group_at watch_pattern ((Q @ ''v='') @ T) 0 =
        group_at (Pattern (Seq (Seq scheme (Seq www (Lit ''youtube.com/watch?'')))
                            (Seq AnyStar (Lit ''v=''))) (IdChars 11)) ((Q @ ''v='') @ T) 0"
    unfolding watch_pattern_def by (rule group_at_cong) (rule watch_prefix_assoc)
  also have "\<dots> = Some (take 11 T)" using assms by (rule watch_group)
  finally show ?thesis .
qed

lemma watch_hit:
  assumes "11 \<le> length T" and "list_all is_id_char (take 11 T)"
    and "\<And>j. matches (Seq (Lit ''v='') (IdChars 11)) T j = []"
  shows "list_all (\<lambda>P. group_at watch_pattern (P @ T) 0 = Some (take 11 T)) watch_prefixes"
proof -
  have "list_all (\<lambda>Q. group_at watch_pattern ((Q @ ''v='') @ T) 0 = Some (take 11 T))
          (with_scheme [''www.youtube.com/watch?'', ''youtube.com/watch?''])"
    unfolding list_all_with_scheme list.pred_inject
    by (intro conjI TrueI watch_hit_one [OF _ assms]) (simp_all add: scheme_def www_def)
  then show ?thesis
    by (simp add: watch_prefixes_def list_all_with_scheme)
qed

subsection \<open>URLs of the supported shapes\<close>

lemma other_hits:
  assumes "11 \<le> length T" and "list_all is_id_char (take 11 T)"
  shows "list_all (\<lambda>P. group_at short_pattern (P @ T) 0 = Some (take 11 T)) short_prefixes"
    and "list_all (\<lambda>P. group_at shorts_pattern (P @ T) 0 = Some (take 11 T)) shorts_prefixes"
    and "list_all (\<lambda>P. group_at embed_pattern (P @ T) 0 = Some (take 11 T)) embed_prefixes"
    and "list_all (\<lambda>P. group_at live_pattern (P @ T) 0 = Some (take 11 T)) live_prefixes"
  using assms by (simp_all add: prefix_defs with_scheme_def pattern_defs)

lemma bare_fails_on_url:
  "list_all (\<lambda>P. \<not> re_match BARE_ID_PATTERN (P @ T)) url_prefixes"
  by (simp add: url_prefixes_def prefix_defs with_scheme_def bare_match_iff is_id_char_def)

lemma list_allD: "list_all Q xs \<Longrightarrow> x \<in> set xs \<Longrightarrow> Q x"
  by (simp add: list_all_iff)

lemma try_patterns_hit:
  assumes "\<And>q. q \<in> set ps \<Longrightarrow> re_search q text = None" and "group_at p text 0 = Some g"
  shows "try_patterns (ps @ p # qs) text = Inr g"
  using assms(1)
proof (induction ps)
  case Nil
  from assms(2) have "re_search p text = Some g" by (rule re_search_at_0)
  then show ?case by simp
next
  case (Cons q ps)
  then show ?case by simp
qed

lemma extract_url:
  assumes s: "strip s = P @ T" and P: "P \<in> set url_prefixes"
    and slash: "CHR ''/'' \<notin> set T"
    and len: "11 \<le> length T" and ids: "list_all is_id_char (take 11 T)"
    and later: "P \<in> set watch_prefixes \<Longrightarrow> \<forall>j. matches (Seq (Lit ''v='') (IdChars 11)) T j = []"
  shows "extract_video_id s = Inr (take 11 T)"
proof -
  have "\<not> re_match BARE_ID_PATTERN (P @ T)"
    using bare_fails_on_url P by (rule list_allD)
  then have e: "extract_video_id s = try_patterns YOUTUBE_PATTERNS (P @ T)"
    by (simp add: extract_video_id_def extract_video_id_with_def s)
  note hits = other_hits [OF len ids]
  from P consider
    (watch) "P \<in> set watch_prefixes" | (short) "P \<in> set short_prefixes"
    | (shorts) "P \<in> set shorts_prefixes" | (embed) "P \<in> set embed_prefixes"
    | (live) "P \<in> set live_prefixes"
    by (auto simp: url_prefixes_def)
  then have "try_patterns YOUTUBE_PATTERNS (P @ T) = Inr (take 11 T)"
  proof cases
    case watch
    with later have "\<And>j. matches (Seq (Lit ''v='') (IdChars 11)) T j = []" by blast
    from watch_hit [OF len ids this] watch
    have "group_at watch_pattern (P @ T) 0 = Some (take 11 T)" by (rule list_allD)
    then have "try_patterns ([] @ watch_pattern # [short_pattern, shorts_pattern, embed_pattern, live_pattern])
        (P @ T) = Inr (take 11 T)"
      by (intro try_patterns_hit) simp_all
    then show ?thesis by (simp only: YOUTUBE_PATTERNS_def append.simps)
  next
    case short
    then have P': "P \<in> set (short_prefixes @ shorts_prefixes @ embed_prefixes @ live_prefixes)"
      by simp
    have "group_at short_pattern (P @ T) 0 = Some (take 11 T)"
      using hits(1) short by (rule list_allD)
    moreover have "re_search watch_pattern (P @ T) = None"
      using watch_pattern_elsewhere [OF slash] P' by (rule list_allD)
    ultimately have "try_patterns ([watch_pattern] @ short_pattern # [shorts_pattern, embed_pattern, live_pattern])
        (P @ T) = Inr (take 11 T)"
      by (intro try_patterns_hit) simp_all
    then show ?thesis by (simp only: YOUTUBE_PATTERNS_def append.simps)
  next
    case shorts
    then have P': "P \<in> set (short_prefixes @ shorts_prefixes @ embed_prefixes @ live_prefixes)"
      and P'': "P \<in> set (shorts_prefixes @ embed_prefixes @ live_prefixes)"
      by simp_all
    have "group_at shorts_pattern (P @ T) 0 = Some (take 11 T)"
      using hits(2) shorts by (rule list_allD)
    moreover have "re_search watch_pattern (P @ T) = None"
      using watch_pattern_elsewhere [OF slash] P' by (rule list_allD)
    moreover have "re_search short_pattern (P @ T) = None"
      using short_pattern_elsewhere [OF slash] P'' by (rule list_allD)
    ultimately have "try_patterns ([watch_pattern, short_pattern] @ shorts_pattern # [embed_pattern, live_pattern])
        (P @ T) = Inr (take 11 T)"
      by (intro try_patterns_hit) auto
    then show ?thesis by (simp only: YOUTUBE_PATTERNS_def append.simps)
  next
    case embed
    then have P': "P \<in> set (short_prefixes @ shorts_prefixes @ embed_prefixes @ live_prefixes)"
      and P'': "P \<in> set (shorts_prefixes @ embed_prefixes @ live_prefixes)"
      and P''': "P \<in> set (embed_prefixes @ live_prefixes)"
      by simp_all
    have "group_at embed_pattern (P @ T) 0 = Some (take 11 T)"
      using hits(3) embed by (rule list_allD)
    moreover have "re_search watch_pattern (P @ T) = None"
      using watch_pattern_elsewhere [OF slash] P' by (rule list_allD)
    moreover have "re_search short_pattern (P @ T) = None"
      using short_pattern_elsewhere [OF slash] P'' by (rule list_allD)
    moreover have "re_search shorts_pattern (P @ T) = None"
      using shorts_pattern_elsewhere [OF slash] P''' by (rule list_allD)
    ultimately have "try_patterns ([watch_pattern, short_pattern, shorts_pattern] @ embed_pattern # [live_pattern])
        (P @ T) = Inr (take 11 T)"
      by (intro try_patterns_hit) auto
    then show ?thesis by (simp only: YOUTUBE_PATTERNS_def append.simps)
  next
    case live
    then have P': "P \<in> set (short_prefixes @ shorts_prefixes @ embed_prefixes @ live_prefixes)"
      and P'': "P \<in> set (shorts_prefixes @ embed_prefixes @ live_prefixes)"
      and P''': "P \<in> set (embed_prefixes @ live_prefixes)"
      by simp_all
    have "group_at live_pattern (P @ T) 0 = Some (take 11 T)"
      using hits(4) live by (rule list_allD)
    moreover have "re_search watch_pattern (P @ T) = None"
      using watch_pattern_elsewhere [OF slash] P' by (rule list_allD)
    moreover have "re_search short_pattern (P @ T) = None"
      using short_pattern_elsewhere [OF slash] P'' by (rule list_allD)
    moreover have "re_search shorts_pattern (P @ T) = None"
      using shorts_pattern_elsewhere [OF slash] P''' by (rule list_allD)
    moreover have "re_search embed_pattern (P @ T) = None"
      using embed_pattern_elsewhere [OF slash] live by (rule list_allD)
    ultimately have "try_patterns ([watch_pattern, short_pattern, shorts_pattern, embed_pattern] @ live_pattern # [])
        (P @ T) = Inr (take 11 T)"
      by (intro try_patterns_hit) auto
    then show ?thesis by (simp only: YOUTUBE_PATTERNS_def append.simps)
  qed
  with e show ?thesis by simp
qed

lemma strip_id: "s \<noteq> [] \<Longrightarrow> \<not> is_space (hd s) \<Longrightarrow> \<not> is_space (last s) \<Longrightarrow> strip s = s"
proof -
  assume ne: "s \<noteq> []" and h: "\<not> is_space (hd s)" and l: "\<not> is_space (last s)"
  from ne h have a: "dropWhile is_space s = s" by (cases s) auto
  from ne l have "\<not> is_space (hd (rev s))" by (simp add: hd_rev)
  with ne have "dropWhile is_space (rev s) = rev s" by (cases "rev s") auto
  with a show ?thesis by (simp add: strip_def)
qed

lemma id_not_space: "is_id_char c \<Longrightarrow> \<not> is_space c"
  by (auto simp: is_id_char_def is_space_def)

lemma url_prefix_hd: "P \<in> set url_prefixes \<Longrightarrow> P \<noteq> [] \<and> \<not> is_space (hd P)"
  by (auto simp: url_prefixes_def prefix_defs with_scheme_def is_space_def)

lemma strip_url:
  assumes "P \<in> set url_prefixes" and "T \<noteq> []" and "\<not> is_space (last T)"
  shows "strip (P @ T) = P @ T"
proof (rule strip_id)
  from url_prefix_hd [OF assms(1)] show "P @ T \<noteq> []" and "\<not> is_space (hd (P @ T))" by simp_all
  from assms(2,3) show "\<not> is_space (last (P @ T))" by simp
qed

lemma equals_not_id: "\<not> is_id_char CHR ''=''"
  by (simp add: is_id_char_def)

lemma no_v_in_ids:
  assumes "\<forall>c\<in>set seg. is_id_char c"
  shows "matches (Seq (Lit ''v='') (IdChars 11)) seg j = []"
proof (rule matches_needs_char)
  show "needs_char CHR ''='' (Seq (Lit ''v='') (IdChars 11))" by simp
  from assms equals_not_id have "CHR ''='' \<notin> set seg" by blast
  then show "CHR ''='' \<notin> set (drop j seg)" by (auto dest: in_set_dropD)
qed

lemma extract_long_segment:
  assumes P: "P \<in> set url_prefixes" and ids: "\<forall>c\<in>set seg. is_id_char c" and len: "11 < length seg"
  shows "extract_video_id (P @ seg) = Inr (take 11 seg)"
proof (rule extract_url [OF _ P])
  from len have ne: "seg \<noteq> []" by auto
  with ids have "\<not> is_space (last seg)" by (simp add: id_not_space)
  with P ne show "strip (P @ seg) = P @ seg" by (rule strip_url)
  from ids slash_not_id show "CHR ''/'' \<notin> set seg" by blast
  from len show "11 \<le> length seg" by simp
  from ids show "list_all is_id_char (take 11 seg)"
    by (auto simp: list_all_iff dest: in_set_takeD)
  from ids show "\<forall>j. matches (Seq (Lit ''v='') (IdChars 11)) seg j = []"
    by (blast intro: no_v_in_ids)
qed

text \<open>
  The same with text after the segment: the first 11 characters are returned as
  long as the text that follows has no \<^verbatim>\<open>/\<close> and, in a watch URL, no later \<^verbatim>\<open>v=\<close>
  that 11 ID characters follow.
\<close>

lemma extract_long_segment_url:
  assumes P: "P \<in> set url_prefixes" and ids: "\<forall>c\<in>set seg. is_id_char c" and len: "11 < length seg"
    and slash: "CHR ''/'' \<notin> set extra"
    and later: "P \<in> set watch_prefixes \<Longrightarrow>
      \<forall>j. matches (Seq (Lit ''v='') (IdChars 11)) (seg @ extra) j = []"
    and ends: "extra \<noteq> [] \<Longrightarrow> \<not> is_space (last extra)"
  shows "extract_video_id (P @ seg @ extra) = Inr (take 11 seg)"
proof -
  let ?T = "seg @ extra"
  from len have ne: "seg \<noteq> []" by auto
  have l: "\<not> is_space (last ?T)"
  proof (cases "extra = []")
    case True
    with ne ids show ?thesis by (simp add: id_not_space)
  next
    case False
    with ends show ?thesis by simp
  qed
  from ne have "?T \<noteq> []" by simp
  with P have s: "strip (P @ ?T) = P @ ?T" using l by (rule strip_url)
  have "extract_video_id (P @ ?T) = Inr (take 11 ?T)"
  proof (rule extract_url [OF s P])
    from ids slash slash_not_id show "CHR ''/'' \<notin> set ?T" by auto
    from len show "11 \<le> length ?T" by simp
    from len ids show "list_all is_id_char (take 11 ?T)"
      by (auto simp: list_all_iff dest: in_set_takeD)
    show "\<forall>j. matches (Seq (Lit ''v='') (IdChars 11)) ?T j = []" if "P \<in> set watch_prefixes"
      using that by (rule later)
  qed
  with len show ?thesis by simp
qed

lemma extract_long_segment_example:
  "extract_video_id ''https://youtu.be/dQw4w9WgXcQABCDEF'' = Inr ''dQw4w9WgXcQ''
   \<and> extract_video_id ''https://www.youtube.com/watch?v=dQw4w9WgXcQABCDEF&t=120'' = Inr ''dQw4w9WgXcQ''"
  by (simp add: extract_video_id_def extract_video_id_with_def YOUTUBE_PATTERNS_def
      BARE_ID_PATTERN_def pattern_defs re_match_def re_search_def strip_def is_space_def
      is_id_char_def)

subsection \<open>Bare IDs, extra parameters, and a later \<^verbatim>\<open>v=\<close>\<close>

lemmas extract_eval = extract_video_id_def extract_video_id_with_def YOUTUBE_PATTERNS_def
  BARE_ID_PATTERN_def pattern_defs re_match_def re_search_def strip_def is_space_def
  is_id_char_def

lemma dropWhile_all: "\<forall>c\<in>set xs. Q c \<Longrightarrow> dropWhile Q (xs @ ys) = dropWhile Q ys"
  by (induction xs) auto

lemma strip_padded:
  assumes "v \<noteq> []" and "\<not> is_space (hd v)" and "\<not> is_space (last v)"
    and "\<forall>c\<in>set ws. is_space c" and "\<forall>c\<in>set ws'. is_space c"
  shows "strip (ws @ v @ ws') = v"
proof -
  from assms(4) have "dropWhile is_space (ws @ v @ ws') = dropWhile is_space (v @ ws')"
    by (rule dropWhile_all)
  also from assms(1,2) have "\<dots> = v @ ws'" by (cases v) auto
  finally have a: "dropWhile is_space (ws @ v @ ws') = v @ ws'" .
  from assms(5) have "\<forall>c\<in>set (rev ws'). is_space c" by simp
  then have "dropWhile is_space (rev ws' @ rev v) = dropWhile is_space (rev v)"
    by (rule dropWhile_all)
  also from assms(1,3) have "\<dots> = rev v" by (cases "rev v") (auto simp: hd_rev)
  finally show ?thesis by (simp add: strip_def a)
qed

lemma extract_video_id_bare:
  assumes len: "length v = 11" and ids: "\<forall>c\<in>set v. is_id_char c"
    and "\<forall>c\<in>set ws. is_space c" and "\<forall>c\<in>set ws'. is_space c"
  shows "extract_video_id_with patterns (ws @ v @ ws') = Inr v"
proof -
  from len have ne: "v \<noteq> []" by auto
  with ids have "\<not> is_space (hd v)" "\<not> is_space (last v)" by (simp_all add: id_not_space)
  with ne have "strip (ws @ v @ ws') = v" using assms(3,4) by (rule strip_padded)
  moreover from len ids have "re_match BARE_ID_PATTERN v"
    by (simp add: bare_match_iff list_all_iff)
  ultimately show ?thesis by (simp add: extract_video_id_with_def)
qed

lemma extract_video_id_url:
  assumes P: "P \<in> set url_prefixes" and len: "length v = 11" and ids: "\<forall>c\<in>set v. is_id_char c"
    and slash: "CHR ''/'' \<notin> set extra"
    and later: "P \<in> set watch_prefixes \<Longrightarrow>
      \<forall>j. matches (Seq (Lit ''v='') (IdChars 11)) (v @ extra) j = []"
    and ws: "\<forall>c\<in>set ws. is_space c" "\<forall>c\<in>set ws'. is_space c"
    and ends: "extra \<noteq> [] \<Longrightarrow> \<not> is_space (last extra)"
  shows "extract_video_id (ws @ P @ v @ extra @ ws') = Inr v"
proof -
  let ?T = "v @ extra"
  from len have ne: "v \<noteq> []" by auto
  have l: "\<not> is_space (last (P @ ?T))"
  proof (cases "extra = []")
    case True
    with ne ids show ?thesis by (simp add: id_not_space)
  next
    case False
    with ends show ?thesis by simp
  qed
  from url_prefix_hd [OF P] have h: "P @ ?T \<noteq> []" "\<not> is_space (hd (P @ ?T))" by simp_all
  from h l ws have "strip (ws @ (P @ ?T) @ ws') = P @ ?T" by (rule strip_padded)
  then have s: "strip (ws @ P @ v @ extra @ ws') = P @ ?T" by simp
  have "extract_video_id (ws @ P @ v @ extra @ ws') = Inr (take 11 ?T)"
  proof (rule extract_url [OF s P])
    from ids slash slash_not_id show "CHR ''/'' \<notin> set ?T" by auto
    from len show "11 \<le> length ?T" by simp
    from len ids show "list_all is_id_char (take 11 ?T)" by (simp add: list_all_iff)
    show "\<forall>j. matches (Seq (Lit ''v='') (IdChars 11)) ?T j = []" if "P \<in> set watch_prefixes"
      using that by (rule later)
  qed
  with len show ?thesis by simp
qed

text \<open>
  Claim C7. A valid 11-character ID \<open>v\<close> embedded in a URL of a supported shape is
  returned as it is, whatever query parameters follow, and a bare ID, with or
  without surrounding whitespace, is returned before any URL pattern is tried. The
  two lemmas above prove this for the bare ID (for every list of patterns) and for
  the URLs whose extra text has no \<^verbatim>\<open>/\<close> and, in a watch URL, no later \<^verbatim>\<open>v=\<close> that
  11 ID characters follow. The code does not do it for every watch URL: the greedy
  \<^verbatim>\<open>.*\<close> in front of \<^verbatim>\<open>v=\<close> takes the last such place of the line, so the value of a
  later parameter whose name ends in \<^verbatim>\<open>v\<close> is returned in place of the video ID.
\<close>

theorem extract_video_id_later_parameter:
  "extract_video_id ''https://www.youtube.com/watch?v=dQw4w9WgXcQ&prev=AAAAAAAAAAA''
     = Inr ''AAAAAAAAAAA''"
  by (simp add: extract_eval)

text \<open>
  Claim C9. A value that \<^const>\<open>extract_video_id\<close> returns is 11 characters of
  \<^verbatim>\<open>[A-Za-z0-9_-]\<close> (lemma \<open>extract_video_id_wellformed\<close>), and a URL whose ID segment
  has more than 11 such characters gives the first 11 of them. The code does the
  second for the URLs of lemma \<open>extract_long_segment_url\<close>, not for every watch URL:
  the greedy \<^verbatim>\<open>.*\<close> in front of \<^verbatim>\<open>v=\<close> takes the last such place of the line here
  too, so the value of a later parameter whose name ends in \<^verbatim>\<open>v\<close> is returned in
  place of the first 11 characters of the ID segment.
\<close>

theorem extract_video_id_long_segment_later_parameter:
  "extract_video_id ''https://www.youtube.com/watch?v=dQw4w9WgXcQABCDEF&prev=AAAAAAAAAAA''
     = Inr ''AAAAAAAAAAA''
   \<and> take 11 ''dQw4w9WgXcQABCDEF'' = ''dQw4w9WgXcQ''"
  by (simp add: extract_eval)

section \<open>Properties of the fetcher\<close>

lemma fetch_transcript_no_fallback:
  assumes "fetch_en api v = Inl e" and "e \<noteq> NoTranscriptFound"
  shows "fst (fetch_transcript api v) = [Fetch v]"
  using assms by (cases e) (simp_all add: fetch_transcript_def)

lemma attempt_2_calls: "List v \<in> set (fst (attempt_2 api v))"
  by (simp add: attempt_2_def split: sum.splits list.splits)

lemma fetch_transcript_fallback_iff:
  "List v \<in> set (fst (fetch_transcript api v)) \<longleftrightarrow> fetch_en api v = Inl NoTranscriptFound"
proof (cases "fetch_en api v")
  case (Inr segs)
  then show ?thesis by (simp add: fetch_transcript_def)
next
  case (Inl e)
  show ?thesis
  proof (cases "e = NoTranscriptFound")
    case True
    with Inl show ?thesis by (simp add: fetch_transcript_def attempt_2_calls)
  next
    case False
    with Inl fetch_transcript_no_fallback [OF Inl False] show ?thesis by simp
  qed
qed

text \<open>
  Claim C3. If the English fetch fails because transcripts are disabled, the video
  is unavailable, the ID is invalid or the provider blocks the client, then
  \<^const>\<open>fetch_transcript\<close> raises the error of that category (\<open>Disabled\<close>,
  \<open>Unavailable\<close>, \<open>InvalidId\<close>, \<open>Blocked\<close>) after the one call it has made: the provider
  is not asked for the list of transcripts. The list is asked for exactly when the
  English fetch raised \<open>NoTranscriptFound\<close>.
\<close>

theorem fetch_transcript_terminal:
  "(fetch_en api v = Inl TranscriptsDisabled \<longrightarrow>
      fetch_transcript api v = ([Fetch v], Inl (RuntimeError Disabled)))
   \<and> (fetch_en api v = Inl VideoUnavailable \<longrightarrow>
      fetch_transcript api v = ([Fetch v], Inl (RuntimeError Unavailable)))
   \<and> (fetch_en api v = Inl InvalidVideoId \<longrightarrow>
      fetch_transcript api v = ([Fetch v], Inl (RuntimeError InvalidId)))
   \<and> (fetch_en api v = Inl RequestBlocked \<longrightarrow>
      fetch_transcript api v = ([Fetch v], Inl (RuntimeError Blocked)))
   \<and> (fetch_en api v = Inl IpBlocked \<longrightarrow>
      fetch_transcript api v = ([Fetch v], Inl (RuntimeError Blocked)))
   \<and> (List v \<in> set (fst (fetch_transcript api v)) \<longleftrightarrow> fetch_en api v = Inl NoTranscriptFound)"
  using fetch_transcript_fallback_iff [of v api] by (simp add: fetch_transcript_def)

theorem fetch_transcript_terminal_witness:
  "fetch_transcript
     \<lparr>fetch_en = (\<lambda>_. Inl TranscriptsDisabled),
      list_transcripts = (\<lambda>_. Inr [Inr [\<lparr>seg_text = ''hola'', seg_start = 0, seg_duration = 1\<rparr>]])\<rparr>
     ''dQw4w9WgXcQ'' = ([Fetch ''dQw4w9WgXcQ''], Inl (RuntimeError Disabled))
   \<and> fetch_transcript
     \<lparr>fetch_en = (\<lambda>_. Inl VideoUnavailable),
      list_transcripts = (\<lambda>_. Inr [Inr [\<lparr>seg_text = ''hola'', seg_start = 0, seg_duration = 1\<rparr>]])\<rparr>
     ''dQw4w9WgXcQ'' = ([Fetch ''dQw4w9WgXcQ''], Inl (RuntimeError Unavailable))
   \<and> fetch_transcript
     \<lparr>fetch_en = (\<lambda>_. Inl InvalidVideoId),
      list_transcripts = (\<lambda>_. Inr [Inr [\<lparr>seg_text = ''hola'', seg_start = 0, seg_duration = 1\<rparr>]])\<rparr>
     ''dQw4w9WgXcQ'' = ([Fetch ''dQw4w9WgXcQ''], Inl (RuntimeError InvalidId))
   \<and> fetch_transcript
     \<lparr>fetch_en = (\<lambda>_. Inl RequestBlocked),
      list_transcripts = (\<lambda>_. Inr [Inr [\<lparr>seg_text = ''hola'', seg_start = 0, seg_duration = 1\<rparr>]])\<rparr>
     ''dQw4w9WgXcQ'' = ([Fetch ''dQw4w9WgXcQ''], Inl (RuntimeError Blocked))
   \<and> fetch_transcript
     \<lparr>fetch_en = (\<lambda>_. Inl IpBlocked),
      list_transcripts = (\<lambda>_. Inr [Inr [\<lparr>seg_text = ''hola'', seg_start = 0, seg_duration = 1\<rparr>]])\<rparr>
     ''dQw4w9WgXcQ'' = ([Fetch ''dQw4w9WgXcQ''], Inl (RuntimeError Blocked))
   \<and> List ''dQw4w9WgXcQ'' \<in> set (fst (fetch_transcript
     \<lparr>fetch_en = (\<lambda>_. Inl NoTranscriptFound),
      list_transcripts = (\<lambda>_. Inr [Inr [\<lparr>seg_text = ''hola'', seg_start = 0, seg_duration = 1\<rparr>]])\<rparr>
     ''dQw4w9WgXcQ''))"
proof -
  let ?l = "\<lambda>_::string. Inr [Inr [\<lparr>seg_text = ''hola'', seg_start = 0, seg_duration = 1\<rparr>]]
              :: provider_error + (provider_error + segment list) list"
  note t = fetch_transcript_terminal [where v = "''dQw4w9WgXcQ''"]
  have a: "fetch_transcript \<lparr>fetch_en = (\<lambda>_. Inl TranscriptsDisabled), list_transcripts = ?l\<rparr>
      ''dQw4w9WgXcQ'' = ([Fetch ''dQw4w9WgXcQ''], Inl (RuntimeError Disabled))"
    using t [of "\<lparr>fetch_en = (\<lambda>_. Inl TranscriptsDisabled), list_transcripts = ?l\<rparr>"] by simp
  have b: "fetch_transcript \<lparr>fetch_en = (\<lambda>_. Inl VideoUnavailable), list_transcripts = ?l\<rparr>
      ''dQw4w9WgXcQ'' = ([Fetch ''dQw4w9WgXcQ''], Inl (RuntimeError Unavailable))"
    using t [of "\<lparr>fetch_en = (\<lambda>_. Inl VideoUnavailable), list_transcripts = ?l\<rparr>"] by simp
  have c: "fetch_transcript \<lparr>fetch_en = (\<lambda>_. Inl InvalidVideoId), list_transcripts = ?l\<rparr>
      ''dQw4w9WgXcQ'' = ([Fetch ''dQw4w9WgXcQ''], Inl (RuntimeError InvalidId))"
    using t [of "\<lparr>fetch_en = (\<lambda>_. Inl InvalidVideoId), list_transcripts = ?l\<rparr>"] by simp
  have d: "fetch_transcript \<lparr>fetch_en = (\<lambda>_. Inl RequestBlocked), list_transcripts = ?l\<rparr>
      ''dQw4w9WgXcQ'' = ([Fetch ''dQw4w9WgXcQ''], Inl (RuntimeError Blocked))"
    using t [of "\<lparr>fetch_en = (\<lambda>_. Inl RequestBlocked), list_transcripts = ?l\<rparr>"] by simp
  have e: "fetch_transcript \<lparr>fetch_en = (\<lambda>_. Inl IpBlocked), list_transcripts = ?l\<rparr>
      ''dQw4w9WgXcQ'' = ([Fetch ''dQw4w9WgXcQ''], Inl (RuntimeError Blocked))"
    using t [of "\<lparr>fetch_en = (\<lambda>_. Inl IpBlocked), list_transcripts = ?l\<rparr>"] by simp
  have f: "List ''dQw4w9WgXcQ'' \<in> set (fst (fetch_transcript
      \<lparr>fetch_en = (\<lambda>_. Inl NoTranscriptFound), list_transcripts = ?l\<rparr> ''dQw4w9WgXcQ''))"
    using t [of "\<lparr>fetch_en = (\<lambda>_. Inl NoTranscriptFound), list_transcripts = ?l\<rparr>"] by simp
  from a b c d e f show ?thesis by (intro conjI)
qed

text \<open>
  Claim C4. When the English fetch raises \<open>NoTranscriptFound\<close>, \<^const>\<open>fetch_transcript\<close>
  lists the transcripts of the video and returns the raw data of the first one in
  the order of the provider, whatever follows it in the list; when the listing
  raises, when the list is empty, or when the fetch of that first transcript
  raises, it raises the \<open>NoCaptions\<close> error (a later transcript is not tried).
\<close>

theorem fetch_transcript_first_listed:
  "fetch_en api v = Inl NoTranscriptFound \<longrightarrow>
     (list_transcripts api v = Inr (Inr segs # rest) \<longrightarrow>
        fetch_transcript api v = ([Fetch v, List v, TranscriptFetch 0], Inr segs))
   \<and> (list_transcripts api v = Inr (Inl e # rest) \<longrightarrow>
        fetch_transcript api v = ([Fetch v, List v, TranscriptFetch 0], Inl (RuntimeError NoCaptions)))
   \<and> (list_transcripts api v = Inr [] \<longrightarrow>
        fetch_transcript api v = ([Fetch v, List v], Inl (RuntimeError NoCaptions)))
   \<and> (list_transcripts api v = Inl e' \<longrightarrow>
        fetch_transcript api v = ([Fetch v, List v], Inl (RuntimeError NoCaptions)))"
  by (simp add: fetch_transcript_def attempt_2_def)

theorem fetch_transcript_first_listed_witness:
  "fetch_transcript
     \<lparr>fetch_en = (\<lambda>_. Inl NoTranscriptFound),
      list_transcripts = (\<lambda>_. Inr [Inr [\<lparr>seg_text = ''hola'', seg_start = 0, seg_duration = 1\<rparr>],
                                    Inr [\<lparr>seg_text = ''salut'', seg_start = 0, seg_duration = 1\<rparr>]])\<rparr>
     ''dQw4w9WgXcQ''
     = ([Fetch ''dQw4w9WgXcQ'', List ''dQw4w9WgXcQ'', TranscriptFetch 0],
        Inr [\<lparr>seg_text = ''hola'', seg_start = 0, seg_duration = 1\<rparr>])
   \<and> fetch_transcript
     \<lparr>fetch_en = (\<lambda>_. Inl NoTranscriptFound),
      list_transcripts = (\<lambda>_. Inr [Inl (OtherError ''timeout''),
                                    Inr [\<lparr>seg_text = ''salut'', seg_start = 0, seg_duration = 1\<rparr>]])\<rparr>
     ''dQw4w9WgXcQ''
     = ([Fetch ''dQw4w9WgXcQ'', List ''dQw4w9WgXcQ'', TranscriptFetch 0], Inl (RuntimeError NoCaptions))
   \<and> fetch_transcript
     \<lparr>fetch_en = (\<lambda>_. Inl NoTranscriptFound), list_transcripts = (\<lambda>_. Inr [])\<rparr> ''dQw4w9WgXcQ''
     = ([Fetch ''dQw4w9WgXcQ'', List ''dQw4w9WgXcQ''], Inl (RuntimeError NoCaptions))
   \<and> fetch_transcript
     \<lparr>fetch_en = (\<lambda>_. Inl NoTranscriptFound), list_transcripts = (\<lambda>_. Inl VideoUnavailable)\<rparr>
     ''dQw4w9WgXcQ''
     = ([Fetch ''dQw4w9WgXcQ'', List ''dQw4w9WgXcQ''], Inl (RuntimeError NoCaptions))"
proof -
  note t = fetch_transcript_first_listed [where v = "''dQw4w9WgXcQ''"]
  have a: "fetch_transcript
     \<lparr>fetch_en = (\<lambda>_. Inl NoTranscriptFound),
      list_transcripts = (\<lambda>_. Inr [Inr [\<lparr>seg_text = ''hola'', seg_start = 0, seg_duration = 1\<rparr>],
                                    Inr [\<lparr>seg_text = ''salut'', seg_start = 0, seg_duration = 1\<rparr>]])\<rparr>
     ''dQw4w9WgXcQ''
     = ([Fetch ''dQw4w9WgXcQ'', List ''dQw4w9WgXcQ'', TranscriptFetch 0],
        Inr [\<lparr>seg_text = ''hola'', seg_start = 0, seg_duration = 1\<rparr>])"
    using t [of "\<lparr>fetch_en = (\<lambda>_. Inl NoTranscriptFound),
      list_transcripts = (\<lambda>_. Inr [Inr [\<lparr>seg_text = ''hola'', seg_start = 0, seg_duration = 1\<rparr>],
                                    Inr [\<lparr>seg_text = ''salut'', seg_start = 0, seg_duration = 1\<rparr>]])\<rparr>"
        "[\<lparr>seg_text = ''hola'', seg_start = 0, seg_duration = 1\<rparr>]"
        "[Inr [\<lparr>seg_text = ''salut'', seg_start = 0, seg_duration = 1\<rparr>]]"]
    by simp
  have b: "fetch_transcript
     \<lparr>fetch_en = (\<lambda>_. Inl NoTranscriptFound),
      list_transcripts = (\<lambda>_. Inr [Inl (OtherError ''timeout''),
                                    Inr [\<lparr>seg_text = ''salut'', seg_start = 0, seg_duration = 1\<rparr>]])\<rparr>
     ''dQw4w9WgXcQ''
     = ([Fetch ''dQw4w9WgXcQ'', List ''dQw4w9WgXcQ'', TranscriptFetch 0], Inl (RuntimeError NoCaptions))"
    using t [of "\<lparr>fetch_en = (\<lambda>_. Inl NoTranscriptFound),
      list_transcripts = (\<lambda>_. Inr [Inl (OtherError ''timeout''),
                                    Inr [\<lparr>seg_text = ''salut'', seg_start = 0, seg_duration = 1\<rparr>]])\<rparr>"
        _ "[Inr [\<lparr>seg_text = ''salut'', seg_start = 0, seg_duration = 1\<rparr>]]" "OtherError ''timeout''"]
    by simp
  have c: "fetch_transcript
     \<lparr>fetch_en = (\<lambda>_. Inl NoTranscriptFound), list_transcripts = (\<lambda>_. Inr [])\<rparr> ''dQw4w9WgXcQ''
     = ([Fetch ''dQw4w9WgXcQ'', List ''dQw4w9WgXcQ''], Inl (RuntimeError NoCaptions))"
    using t [of "\<lparr>fetch_en = (\<lambda>_. Inl NoTranscriptFound), list_transcripts = (\<lambda>_. Inr [])\<rparr>"]
    by simp
  have d: "fetch_transcript
     \<lparr>fetch_en = (\<lambda>_. Inl NoTranscriptFound), list_transcripts = (\<lambda>_. Inl VideoUnavailable)\<rparr>
     ''dQw4w9WgXcQ''
     = ([Fetch ''dQw4w9WgXcQ'', List ''dQw4w9WgXcQ''], Inl (RuntimeError NoCaptions))"
    using t [of "\<lparr>fetch_en = (\<lambda>_. Inl NoTranscriptFound), list_transcripts = (\<lambda>_. Inl VideoUnavailable)\<rparr>"
        _ _ _ VideoUnavailable]
    by simp
  from a b c d show ?thesis by (intro conjI)
qed

section \<open>Properties of the float arithmetic\<close>

lemma round_half_even_of_int: "round_half_even (of_int k) = k"
  by (simp add: round_half_even_def)

text \<open>An integer of at most 53 bits is a double: rounding leaves it as it is.\<close>

lemma rnd_grid_exact:
  fixes n E :: nat
  assumes n: "0 < n" and b: "floorlog 2 n \<le> p" and E: "p \<le> E"
  defines "k \<equiv> floorlog 2 (nat \<lfloor>real n * 2 ^ E\<rfloor>) - p"
  shows "of_int (round_half_even (real n * 2 ^ E / 2 ^ k)) * 2 ^ k / 2 ^ E = real n"
proof -
  define s where "s = p - floorlog 2 n"
  have "real n * 2 ^ E = real (n * 2 ^ E)" by simp
  then have N: "nat \<lfloor>real n * 2 ^ E\<rfloor> = n * 2 ^ E" by (simp only: floor_of_nat nat_int)
  have fl: "floorlog 2 (n * 2 ^ E) = floorlog 2 n + E" using n by simp
  have k: "k = floorlog 2 n + E - p" by (simp add: k_def N fl)
  with b E have split: "E = k + s" by (simp add: s_def)
  have pow: "(2::real) ^ E = 2 ^ k * 2 ^ s" by (simp add: split power_add)
  have q: "real n * 2 ^ E / 2 ^ k = of_int (int (n * 2 ^ s))" by (simp add: pow)
  have m: "round_half_even (real n * 2 ^ E / 2 ^ k) = int (n * 2 ^ s)"
    by (simp only: q round_half_even_of_int)
  have "of_int (round_half_even (real n * 2 ^ E / 2 ^ k)) * 2 ^ k / 2 ^ E
      = real (n * 2 ^ s) * 2 ^ k / 2 ^ E"
    by (simp only: m of_int_of_nat_eq)
  also have "\<dots> = real n" by (simp add: pow)
  finally show ?thesis .
qed

lemma rnd64_nat:
  assumes "n < 2 ^ 53"
  shows "rnd64 (real n) = Finite (real n)"
proof (cases "n = 0")
  case True
  then show ?thesis by (simp add: rnd64_def round_half_even_def floorlog_def)
next
  case False
  then have n: "0 < n" by simp
  from assms have b: "floorlog 2 n \<le> 53" by (simp add: floorlog_le_iff)
  have v: "of_int (round_half_even (real n * 2 ^ 1074 /
              2 ^ (floorlog 2 (nat \<lfloor>real n * 2 ^ 1074\<rfloor>) - 53))) *
            2 ^ (floorlog 2 (nat \<lfloor>real n * 2 ^ 1074\<rfloor>) - 53) / 2 ^ 1074 = real n"
    using n b by (rule rnd_grid_exact) simp
  from assms have "real n < 2 ^ 53" by (metis of_nat_less_iff of_nat_numeral of_nat_power)
  also have "(2::real) ^ 53 \<le> 2 ^ 1024" by (rule power_increasing) simp_all
  finally have small: "\<not> 2 ^ 1024 \<le> real n" by simp
  show ?thesis
    unfolding rnd64_def Let_def abs_of_nat v using small by simp
qed

lemma rnd64_minus: "rnd64 (- x) = (case rnd64 x of Finite v \<Rightarrow> Finite (- v) | PosInf \<Rightarrow> NegInf
    | NegInf \<Rightarrow> PosInf | NaN \<Rightarrow> NaN)" if "x \<noteq> 0"
  using that by (simp add: rnd64_def Let_def)

lemma rnd64_int:
  assumes "\<bar>n\<bar> < 2 ^ 53"
  shows "rnd64 (of_int n) = Finite (of_int n)"
proof (cases "0 \<le> n")
  case True
  with assms have "n < 2 ^ 53" by simp
  with True have "nat n < 2 ^ 53" by (metis nat_less_numeral_power_cancel_iff)
  from rnd64_nat [OF this] True show ?thesis by simp
next
  case False
  with assms have "- n < 2 ^ 53" by simp
  then have "nat (- n) < 2 ^ 53" by (metis nat_less_numeral_power_cancel_iff)
  from rnd64_nat [OF this] False have pos: "rnd64 (of_int (- n)) = Finite (of_int (- n))" by simp
  from False have nz: "(of_int (- n) :: real) \<noteq> 0" by simp
  have "rnd64 (- of_int (- n)) = Finite (- of_int (- n))"
    by (simp only: rnd64_minus [OF nz] pos pyfloat.case)
  then show ?thesis by simp
qed

lemma is_double_int: "\<bar>n\<bar> < 2 ^ 53 \<Longrightarrow> is_double (of_int n)"
  by (simp add: is_double_def rnd64_int)

lemma rnd64_numeral: "numeral w < (2::int) ^ 53 \<Longrightarrow> rnd64 (numeral w) = Finite (numeral w)"
  using rnd64_int [of "numeral w"] by simp

lemma rnd64_0: "rnd64 0 = Finite 0"
  using rnd64_int [of 0] by simp

lemma is_double_numeral: "numeral w < (2::int) ^ 53 \<Longrightarrow> is_double (numeral w)"
  by (simp add: is_double_def rnd64_numeral)

text \<open>Bounds of the rounded value, from the binade of the argument.\<close>

lemma rhe_floor: "\<lfloor>q\<rfloor> \<le> round_half_even q \<and> round_half_even q \<le> \<lfloor>q\<rfloor> + 1"
  by (simp add: round_half_even_def Let_def)

lemma rhe_ge_int: "of_int j \<le> q \<Longrightarrow> j \<le> round_half_even q"
  using rhe_floor [of q] le_floor_iff [of j q] by linarith

lemma rhe_le_int:
  assumes "q \<le> of_int j"
  shows "round_half_even q \<le> j"
proof (cases "q = of_int j")
  case True
  then show ?thesis by (simp add: round_half_even_of_int)
next
  case False
  with assms have "q < of_int j" by simp
  then have "\<lfloor>q\<rfloor> < j" by (simp add: floor_less_iff)
  with rhe_floor [of q] show ?thesis by linarith
qed

lemma rhe_gt_even:
  assumes "even j"
  shows "j < round_half_even q \<longleftrightarrow> of_int j + 1 / 2 < q"
proof (cases "\<lfloor>q\<rfloor> = j")
  case True
  then have "even \<lfloor>q\<rfloor>" using assms by simp
  then show ?thesis using True by (auto simp add: round_half_even_def Let_def)
next
  case False
  show ?thesis
  proof (cases "\<lfloor>q\<rfloor> < j")
    case True
    with rhe_floor [of q] have "\<not> j < round_half_even q" by linarith
    moreover from True have "q < of_int j" by (simp add: floor_less_iff)
    ultimately show ?thesis by simp
  next
    case F: False
    with False have "j + 1 \<le> \<lfloor>q\<rfloor>" by simp
    then have "of_int (j + 1) \<le> q" by (simp only: le_floor_iff)
    moreover from \<open>j + 1 \<le> \<lfloor>q\<rfloor>\<close> rhe_floor [of q] have "j < round_half_even q" by linarith
    ultimately show ?thesis by simp
  qed
qed

lemma nat_floor_less: "0 \<le> y \<Longrightarrow> y < 2 ^ e \<Longrightarrow> nat \<lfloor>y\<rfloor> < 2 ^ e" for y :: real
proof -
  assume "0 \<le> y" "y < 2 ^ e"
  then have "\<lfloor>y\<rfloor> < 2 ^ e" by (simp add: floor_less_iff)
  then show ?thesis by (metis nat_less_numeral_power_cancel_iff)
qed

lemma nat_floor_ge: "2 ^ e \<le> y \<Longrightarrow> 2 ^ e \<le> nat \<lfloor>y\<rfloor>" for y :: real
proof -
  assume "2 ^ e \<le> y"
  then have "2 ^ e \<le> \<lfloor>y\<rfloor>" by (simp add: le_floor_iff)
  then show ?thesis by (metis numeral_power_le_nat_cancel_iff)
qed

lemma grid_upper:
  fixes y :: real
  assumes "0 \<le> y" "y < 2 ^ e"
  shows "of_int (round_half_even (y / 2 ^ (floorlog 2 (nat \<lfloor>y\<rfloor>) - p)))
           * 2 ^ (floorlog 2 (nat \<lfloor>y\<rfloor>) - p) \<le> (2::real) ^ e"
proof -
  define k where "k = floorlog 2 (nat \<lfloor>y\<rfloor>) - p"
  from assms have "nat \<lfloor>y\<rfloor> < 2 ^ e" by (rule nat_floor_less)
  then have "floorlog 2 (nat \<lfloor>y\<rfloor>) \<le> e" by (simp add: floorlog_le_iff)
  then have ke: "k \<le> e" by (simp add: k_def)
  then have pow: "(2::real) ^ e = 2 ^ (e - k) * 2 ^ k" by (simp add: power_add [symmetric])
  from assms have "y / 2 ^ k \<le> 2 ^ (e - k)" by (simp add: pow field_simps)
  then have "y / 2 ^ k \<le> of_int (2 ^ (e - k))" by simp
  then have "round_half_even (y / 2 ^ k) \<le> 2 ^ (e - k)" by (rule rhe_le_int)
  then have "(of_int (round_half_even (y / 2 ^ k)) :: real) \<le> of_int (2 ^ (e - k))"
    by (simp only: of_int_le_iff)
  then have "of_int (round_half_even (y / 2 ^ k)) * 2 ^ k \<le> (2::real) ^ (e - k) * 2 ^ k"
    by simp
  then show ?thesis by (simp only: pow k_def)
qed

lemma grid_lower:
  fixes y :: real
  assumes "2 ^ e \<le> y" "0 < p"
  shows "(2::real) ^ e \<le> of_int (round_half_even (y / 2 ^ (floorlog 2 (nat \<lfloor>y\<rfloor>) - p)))
           * 2 ^ (floorlog 2 (nat \<lfloor>y\<rfloor>) - p)"
proof -
  define N where "N = nat \<lfloor>y\<rfloor>"
  define L where "L = floorlog 2 N"
  define k where "k = L - p"
  define M where "M = L - 1"
  from assms have Ne: "2 ^ e \<le> N" unfolding N_def by (intro nat_floor_ge)
  then have "Suc e \<le> L" unfolding L_def by (intro floorlog_ge_SucI) simp_all
  then have eM: "e \<le> M" by (simp add: M_def)
  from Ne have "0 < N" by (metis less_le_trans zero_less_numeral zero_less_power)
  then have NL: "2 ^ M \<le> N" using floorlog_bounds [of N 2] by (simp add: L_def M_def)
  from assms(2) \<open>Suc e \<le> L\<close> have kM: "k \<le> M" by (simp add: k_def M_def)
  then have pow: "(2::real) ^ M = 2 ^ (M - k) * 2 ^ k" by (simp add: power_add [symmetric])
  from assms have "0 \<le> y" by (meson order_trans zero_le_numeral zero_le_power)
  then have "real N \<le> y" by (simp add: N_def)
  moreover from NL have "(2::real) ^ M \<le> real N"
    by (metis of_nat_le_iff of_nat_numeral of_nat_power)
  ultimately have "(2::real) ^ M \<le> y" by linarith
  then have "(2::real) ^ (M - k) * 2 ^ k \<le> y" by (simp only: pow)
  then have "(2::real) ^ (M - k) \<le> y / 2 ^ k" by (simp add: field_simps)
  then have "of_int (2 ^ (M - k)) \<le> y / 2 ^ k" by simp
  then have "2 ^ (M - k) \<le> round_half_even (y / 2 ^ k)" by (rule rhe_ge_int)
  then have "(of_int (2 ^ (M - k)) :: real) \<le> of_int (round_half_even (y / 2 ^ k))"
    by (simp only: of_int_le_iff)
  then have "(2::real) ^ (M - k) * 2 ^ k \<le> of_int (round_half_even (y / 2 ^ k)) * 2 ^ k"
    by simp
  then have "(2::real) ^ M \<le> of_int (round_half_even (y / 2 ^ k)) * 2 ^ k"
    by (simp only: pow)
  moreover from eM have "(2::real) ^ e \<le> 2 ^ M" by (intro power_increasing) simp_all
  ultimately show ?thesis unfolding k_def L_def N_def by linarith
qed

lemma grid_binade:
  fixes y :: real
  assumes "2 ^ (e - 1) \<le> y" "y < 2 ^ e"
  shows "floorlog 2 (nat \<lfloor>y\<rfloor>) = e"
proof -
  from assms(1) have "0 \<le> y" by (meson order_trans zero_le_numeral zero_le_power)
  with assms(2) have "nat \<lfloor>y\<rfloor> < 2 ^ e" by (intro nat_floor_less)
  then have "floorlog 2 (nat \<lfloor>y\<rfloor>) \<le> e" by (simp add: floorlog_le_iff)
  moreover from assms(1) have "2 ^ (e - 1) \<le> nat \<lfloor>y\<rfloor>" by (rule nat_floor_ge)
  then have "e \<le> floorlog 2 (nat \<lfloor>y\<rfloor>)" by (intro floorlog_geI) simp_all
  ultimately show ?thesis by simp
qed

text \<open>
  The comparison with the time to live, after a rounding: 604800 is a double whose
  last bit is 0 and whose neighbour above is \<open>604800 + 1 / 2 ^ 33\<close>, so a difference
  rounds to more than 604800 exactly when it is above the midpoint of the two.
\<close>

lemma py_gt_rnd64_ttl: "py_gt (rnd64 x) 604800 \<longleftrightarrow> 604800 + 1 / 2 ^ 34 < x"
proof -
  define y :: real where "y = \<bar>x\<bar> * 2 ^ 1074"
  define k where "k = floorlog 2 (nat \<lfloor>y\<rfloor>) - 53"
  define m where "m = round_half_even (y / 2 ^ k)"
  define v :: real where "v = of_int m * 2 ^ k / 2 ^ 1074"
  have r: "rnd64 x = (if 2 ^ 1024 \<le> v then (if x < 0 then NegInf else PosInf)
                      else Finite (if x < 0 then - v else v))"
    unfolding rnd64_def Let_def y_def k_def m_def v_def ..
  have y0: "0 \<le> y" by (simp add: y_def)
  then have "of_int 0 \<le> y / 2 ^ k" by simp
  then have "0 \<le> m" unfolding m_def by (rule rhe_ge_int)
  then have v0: "0 \<le> v" by (simp add: v_def)
  have up: "v \<le> 2 ^ e / 2 ^ 1074" if "y < 2 ^ e" for e
  proof -
    from grid_upper [OF y0 that, of 53] have "of_int m * 2 ^ k \<le> (2::real) ^ e"
      by (simp only: m_def k_def)
    then show ?thesis unfolding v_def by (rule divide_right_mono) simp
  qed
  consider (neg) "x < 0" | (low) "0 \<le> x" "x < 2 ^ 19" | (mid) "2 ^ 19 \<le> x" "x < 2 ^ 20"
    | (high) "2 ^ 20 \<le> x"
    by linarith
  then show ?thesis
  proof cases
    case neg
    with v0 have "\<not> py_gt (rnd64 x) 604800" by (simp add: r)
    with neg show ?thesis by simp
  next
    case low
    then have "y < 2 ^ 19 * 2 ^ 1074" by (simp add: y_def)
    then have "y < 2 ^ 1093" by simp
    from up [OF this] have "v \<le> 2 ^ 19" by simp
    then have "\<not> py_gt (rnd64 x) 604800" using low by (simp add: r)
    with low show ?thesis by simp
  next
    case mid
    then have "2 ^ 19 * 2 ^ 1074 \<le> y" "y < 2 ^ 20 * 2 ^ 1074" by (simp_all add: y_def)
    then have y: "2 ^ (1094 - 1) \<le> y" "y < 2 ^ 1094" by simp_all
    then have "floorlog 2 (nat \<lfloor>y\<rfloor>) = 1094" by (rule grid_binade)
    then have k: "k = 1041" by (simp add: k_def)
    from mid have yx: "y = x * 2 ^ 33 * 2 ^ 1041" by (simp add: y_def)
    have m: "m = round_half_even (x * 2 ^ 33)" by (simp only: m_def k yx) (simp add: mult.commute)
    have v: "v = of_int m / 2 ^ 33" by (simp only: v_def k) simp
    from up [OF y(2)] have "v \<le> 2 ^ 20" by simp
    then have "py_gt (rnd64 x) 604800 \<longleftrightarrow> 604800 < v" using mid by (simp add: r)
    also have "\<dots> \<longleftrightarrow> of_int (604800 * 2 ^ 33) < (of_int m :: real)"
      by (simp add: v field_simps)
    also have "\<dots> \<longleftrightarrow> 604800 * 2 ^ 33 < m" by (simp only: of_int_less_iff)
    also have "\<dots> \<longleftrightarrow> of_int (604800 * 2 ^ 33) + 1 / 2 < x * 2 ^ 33"
      unfolding m by (rule rhe_gt_even) simp
    also have "\<dots> \<longleftrightarrow> 604800 + 1 / 2 ^ 34 < x" by (simp add: field_simps)
    finally show ?thesis .
  next
    case high
    then have "2 ^ 20 * 2 ^ 1074 \<le> y" by (simp add: y_def)
    then have "2 ^ 1094 \<le> y" by simp
    from grid_lower [OF this, of 53] have "(2::real) ^ 1094 \<le> of_int m * 2 ^ k"
      by (simp only: m_def k_def)
    then have "(2::real) ^ 1094 / 2 ^ 1074 \<le> v" unfolding v_def by (rule divide_right_mono) simp
    then have "2 ^ 20 \<le> v" by simp
    then have "py_gt (rnd64 x) 604800" using high by (simp add: r)
    with high show ?thesis by simp
  qed
qed


section \<open>Properties of the cache\<close>

lemma ttl_value: "CACHE_TTL_SECONDS = 604800"
  by (simp add: CACHE_TTL_SECONDS_def)



lemma is_double_above_ttl: "is_double x \<Longrightarrow> 604800 + 1 / 2 ^ 34 < x \<longleftrightarrow> 604800 < x"
  using py_gt_rnd64_ttl [of x] by (simp add: is_double_def)

text \<open>An \<^verbatim>\<open>int\<close> of at most 53 bits is converted as it is; one of 1025 bits is not.\<close>

lemma py_float_of_int_exact: "\<bar>n\<bar> < 2 ^ 53 \<Longrightarrow> py_float_of_int n = Inr (Finite (of_int n))"
  by (simp add: py_float_of_int_def rnd64_int)

lemma ttl_exceeded_int:
  "\<bar>n\<bar> < 2 ^ 53 \<Longrightarrow> ttl_exceeded now (JInt n) = Inr (604800 + 1 / 2 ^ 34 < now - of_int n)"
  by (simp add: py_float_of_int_exact ttl_value py_gt_rnd64_ttl)

lemma ttl_exceeded_default: "ttl_exceeded now (JInt 0) = Inr (604800 + 1 / 2 ^ 34 < now)"
  using ttl_exceeded_int [of 0 now] by simp

lemma ttl_exceeded_missing:
  "map_of d ''cached_at'' = None \<Longrightarrow> is_double now \<Longrightarrow>
     ttl_exceeded now (dict_get d ''cached_at'' (JInt 0)) = Inr (604800 < now)"
proof -
  assume "map_of d ''cached_at'' = None" and now: "is_double now"
  then have "dict_get d ''cached_at'' (JInt 0) = JInt 0" by (simp add: dict_get_def)
  with now show ?thesis by (simp only: ttl_exceeded_default is_double_above_ttl)
qed



lemma get_cached_corrupt:
  "files env (vid @ ''.json'') = Some Corrupt \<Longrightarrow>
     get_cached_transcript now env vid = (Inr JNull, env)"
  by (simp add: get_cached_transcript_def)




lemma get_cached_expired:
  "files env (vid @ ''.json'') = Some (Valid (JObj d)) \<Longrightarrow>
   ttl_exceeded now (dict_get d ''cached_at'' (JInt 0)) = Inr True \<Longrightarrow>
     get_cached_transcript now env vid =
       (Inr JNull, if remove_fails env then env
                   else env\<lparr>files := (files env)(vid @ ''.json'' := None)\<rparr>)"
  by (simp add: get_cached_transcript_def)

lemma get_cached_fresh:
  "files env (vid @ ''.json'') = Some (Valid (JObj d)) \<Longrightarrow>
   ttl_exceeded now (dict_get d ''cached_at'' (JInt 0)) = Inr False \<Longrightarrow>
     get_cached_transcript now env vid = (Inr (dict_get d ''segments'' JNull), env)"
  by (simp add: get_cached_transcript_def)





text \<open>
  Claim C10, as amended. An entry that is a JSON object without \<^verbatim>\<open>cached_at\<close> counts
  as expired as soon as the clock reads more than 604800 seconds (\<^verbatim>\<open>cached_at\<close> is
  taken to be 0): \<^verbatim>\<open>None\<close> is returned and the file is deleted, unless the removal
  itself fails; a corrupt file is left in place. An entry that is not expired and
  has no \<^verbatim>\<open>segments\<close> key gives \<^verbatim>\<open>None\<close> with the file left in place.
\<close>

theorem get_cached_transcript_missing_fields:
  "(files env (vid @ ''.json'') = Some (Valid (JObj d)) \<and> map_of d ''cached_at'' = None
      \<and> is_double now \<and> 604800 < now \<longrightarrow>
      get_cached_transcript now env vid =
        (Inr JNull, if remove_fails env then env
                    else env\<lparr>files := (files env)(vid @ ''.json'' := None)\<rparr>))
   \<and> (files env (vid @ ''.json'') = Some Corrupt \<longrightarrow>
      get_cached_transcript now env vid = (Inr JNull, env))
   \<and> (files env (vid @ ''.json'') = Some (Valid (JObj d)) \<and> map_of d ''segments'' = None
      \<and> ttl_exceeded now (dict_get d ''cached_at'' (JInt 0)) = Inr False \<longrightarrow>
      get_cached_transcript now env vid = (Inr JNull, env))"
proof -
  have a: "get_cached_transcript now env vid =
        (Inr JNull, if remove_fails env then env
                    else env\<lparr>files := (files env)(vid @ ''.json'' := None)\<rparr>)"
    if f: "files env (vid @ ''.json'') = Some (Valid (JObj d))"
      and m: "map_of d ''cached_at'' = None" and dbl: "is_double now" and n: "604800 < now"
  proof -
    from ttl_exceeded_missing [OF m dbl] n
    have "ttl_exceeded now (dict_get d ''cached_at'' (JInt 0)) = Inr True" by simp
    with f show ?thesis by (intro get_cached_expired)
  qed
  have b: "get_cached_transcript now env vid = (Inr JNull, env)"
    if f: "files env (vid @ ''.json'') = Some (Valid (JObj d))"
      and m: "map_of d ''segments'' = None"
      and c: "ttl_exceeded now (dict_get d ''cached_at'' (JInt 0)) = Inr False"
  proof -
    from m have "dict_get d ''segments'' JNull = JNull" by (simp add: dict_get_def)
    with get_cached_fresh [OF f c] show ?thesis by simp
  qed
  from a b get_cached_corrupt [of env vid now] show ?thesis by blast
qed

theorem get_cached_transcript_missing_fields_witness:
  "get_cached_transcript 1700000000
     (reliable [''dQw4w9WgXcQ.json'' \<mapsto>
        Valid (JObj [(''video_id'', JStr ''dQw4w9WgXcQ''),
                     (''segments'', JArr (map segment_json hi_segments))])])
     ''dQw4w9WgXcQ'' = (Inr JNull, reliable Map.empty)
   \<and> get_cached_transcript 1700000000 (reliable [''dQw4w9WgXcQ.json'' \<mapsto> Corrupt]) ''dQw4w9WgXcQ''
     = (Inr JNull, reliable [''dQw4w9WgXcQ.json'' \<mapsto> Corrupt])
   \<and> get_cached_transcript 1700000000
     (reliable [''dQw4w9WgXcQ.json'' \<mapsto>
        Valid (JObj [(''video_id'', JStr ''dQw4w9WgXcQ''),
                     (''cached_at'', JFloat (Finite 1699999000))])])
     ''dQw4w9WgXcQ''
     = (Inr JNull,
        reliable [''dQw4w9WgXcQ.json'' \<mapsto>
          Valid (JObj [(''video_id'', JStr ''dQw4w9WgXcQ''),
                       (''cached_at'', JFloat (Finite 1699999000))])])"
proof -
  have a: "get_cached_transcript 1700000000
     (reliable [''dQw4w9WgXcQ.json'' \<mapsto>
        Valid (JObj [(''video_id'', JStr ''dQw4w9WgXcQ''),
                     (''segments'', JArr (map segment_json hi_segments))])])
     ''dQw4w9WgXcQ'' = (Inr JNull, reliable Map.empty)"
    using get_cached_transcript_missing_fields
      [of "reliable [''dQw4w9WgXcQ.json'' \<mapsto>
              Valid (JObj [(''video_id'', JStr ''dQw4w9WgXcQ''),
                           (''segments'', JArr (map segment_json hi_segments))])]"
          "''dQw4w9WgXcQ''"
          "[(''video_id'', JStr ''dQw4w9WgXcQ''), (''segments'', JArr (map segment_json hi_segments))]"
          1700000000]
    by (simp add: reliable_def is_double_numeral)
  have b: "get_cached_transcript 1700000000 (reliable [''dQw4w9WgXcQ.json'' \<mapsto> Corrupt]) ''dQw4w9WgXcQ''
     = (Inr JNull, reliable [''dQw4w9WgXcQ.json'' \<mapsto> Corrupt])"
    using get_cached_transcript_missing_fields
      [of "reliable [''dQw4w9WgXcQ.json'' \<mapsto> Corrupt]" "''dQw4w9WgXcQ''" _ 1700000000]
    by (simp add: reliable_def)
  have c: "get_cached_transcript 1700000000
     (reliable [''dQw4w9WgXcQ.json'' \<mapsto>
        Valid (JObj [(''video_id'', JStr ''dQw4w9WgXcQ''),
                     (''cached_at'', JFloat (Finite 1699999000))])])
     ''dQw4w9WgXcQ''
     = (Inr JNull,
        reliable [''dQw4w9WgXcQ.json'' \<mapsto>
          Valid (JObj [(''video_id'', JStr ''dQw4w9WgXcQ''),
                       (''cached_at'', JFloat (Finite 1699999000))])])"
    using get_cached_transcript_missing_fields
      [of "reliable [''dQw4w9WgXcQ.json'' \<mapsto>
              Valid (JObj [(''video_id'', JStr ''dQw4w9WgXcQ''),
                           (''cached_at'', JFloat (Finite 1699999000))])]"
          "''dQw4w9WgXcQ''"
          "[(''video_id'', JStr ''dQw4w9WgXcQ''), (''cached_at'', JFloat (Finite 1699999000))]"
          1700000000]
    by (simp add: reliable_def dict_get_def ttl_value py_gt_rnd64_ttl)
  from a b c show ?thesis by (intro conjI)
qed

text \<open>
  The claim as it stands fails twice. An entry that has neither \<^verbatim>\<open>cached_at\<close> nor
  \<^verbatim>\<open>segments\<close> is a valid entry without \<^verbatim>\<open>segments\<close>, and it is deleted, not left in
  place. And while the clock reads no more than 604800 seconds, an entry without
  \<^verbatim>\<open>cached_at\<close> is not expired: its segments are returned and the file stays.
\<close>

theorem get_cached_transcript_missing_fields_counterexample:
  "get_cached_transcript 1700000000
     (reliable [''dQw4w9WgXcQ.json'' \<mapsto> Valid (JObj [(''video_id'', JStr ''dQw4w9WgXcQ'')])])
     ''dQw4w9WgXcQ'' = (Inr JNull, reliable Map.empty)
   \<and> get_cached_transcript 604800
     (reliable [''dQw4w9WgXcQ.json'' \<mapsto>
        Valid (JObj [(''video_id'', JStr ''dQw4w9WgXcQ''),
                     (''segments'', JArr (map segment_json hi_segments))])])
     ''dQw4w9WgXcQ''
     = (Inr (JArr (map segment_json hi_segments)),
        reliable [''dQw4w9WgXcQ.json'' \<mapsto>
          Valid (JObj [(''video_id'', JStr ''dQw4w9WgXcQ''),
                       (''segments'', JArr (map segment_json hi_segments))])])"
  by (simp add: get_cached_transcript_def dict_get_def reliable_def ttl_exceeded_default
      del: ttl_exceeded.simps)


section \<open>Properties of the pipeline\<close>

lemma get_cached_write_fails:
  "get_cached_transcript now (env\<lparr>write_fails := w\<rparr>) vid =
     (fst (get_cached_transcript now env vid),
      (snd (get_cached_transcript now env vid))\<lparr>write_fails := w\<rparr>)"
  by (simp add: get_cached_transcript_def Let_def split: option.splits file_state.splits json.splits sum.splits)

lemma get_cached_makedirs:
  "makedirs_fails (snd (get_cached_transcript now env vid)) = makedirs_fails env"
  by (simp add: get_cached_transcript_def Let_def split: option.splits file_state.splits json.splits sum.splits)

lemma save_to_cache_swallows:
  "\<not> makedirs_fails env \<Longrightarrow> fst (save_to_cache now env vid segs) = Inr ()"
  by (simp add: save_to_cache_def Let_def split: option.splits write_failure.splits)

lemma save_to_cache_makedirs:
  "makedirs_fails env \<Longrightarrow> save_to_cache now env vid segs = (Inl OSError, env)"
  by (simp add: save_to_cache_def)

lemma transcript_with_cache_write_fails:
  assumes "\<not> makedirs_fails env"
  shows "fst (transcript_with_cache api t1 t2 (env\<lparr>write_fails := w\<rparr>) vid) =
         fst (transcript_with_cache api t1 t2 env vid)"
proof -
  obtain r env1 where g: "get_cached_transcript t1 env vid = (r, env1)" by (cases "get_cached_transcript t1 env vid")
  then have g': "get_cached_transcript t1 (env\<lparr>write_fails := w\<rparr>) vid = (r, env1\<lparr>write_fails := w\<rparr>)"
    by (simp add: get_cached_write_fails)
  from g assms get_cached_makedirs [of t1 env vid] have m: "\<not> makedirs_fails env1" by simp
  then have m': "\<not> makedirs_fails (env1\<lparr>write_fails := w\<rparr>)" by simp
  have s: "fst (save_to_cache t2 env1 vid segs) = Inr ()"
    "fst (save_to_cache t2 (env1\<lparr>write_fails := w\<rparr>) vid segs) = Inr ()" for segs
    using m m' by (auto intro: save_to_cache_swallows)
  show ?thesis
  proof (cases r)
    case (Inl e)
    then show ?thesis by (simp add: transcript_with_cache_def g g')
  next
    case (Inr cached)
    show ?thesis
    proof (cases "cached = JNull")
      case False
      with Inr show ?thesis by (simp add: transcript_with_cache_def g g')
    next
      case True
      show ?thesis
      proof (cases "snd (fetch_transcript api vid)")
        case (Inl e)
        with Inr True show ?thesis by (simp add: transcript_with_cache_def g g')
      next
        case fetched: (Inr segs)
        from s(1) [of segs] obtain e2 where a: "save_to_cache t2 env1 vid segs = (Inr (), e2)"
          by (cases "save_to_cache t2 env1 vid segs") auto
        from s(2) [of segs] obtain e2' where
          b: "save_to_cache t2 (env1\<lparr>write_fails := w\<rparr>) vid segs = (Inr (), e2')"
          by (cases "save_to_cache t2 (env1\<lparr>write_fails := w\<rparr>) vid segs") auto
        from Inr True fetched a b show ?thesis
          by (simp add: transcript_with_cache_def g g')
      qed
    qed
  qed
qed

text \<open>
  Once the cache directory is there, the outcome of a run does not depend on how
  the write of the cache file goes.
\<close>

lemma main_write_failure_swallowed:
  assumes "\<not> makedirs_fails env"
  shows "fst (main argv api t1 t2 (env\<lparr>write_fails := w\<rparr>)) = fst (main argv api t1 t2 env)"
proof -
  have "fst (case transcript_with_cache api t1 t2 (env\<lparr>write_fails := w\<rparr>) vid of (r, e) \<Rightarrow> F r e)
      = fst (case transcript_with_cache api t1 t2 env vid of (r, e) \<Rightarrow> F r e)"
    if "\<And>r e e'. fst (F r e) = fst (F r e')" for vid and F :: "exn + segments_value \<Rightarrow> os_env \<Rightarrow> outcome \<times> os_env"
    using transcript_with_cache_write_fails [OF assms, of api t1 t2 w vid] that
    by (cases "transcript_with_cache api t1 t2 (env\<lparr>write_fails := w\<rparr>) vid";
        cases "transcript_with_cache api t1 t2 env vid") auto
  then show ?thesis
    unfolding main_def
    by (auto split: sum.splits prod.splits exn.splits segments_value.splits option.splits)
qed

lemma extract_rick: "extract_video_id ''dQw4w9WgXcQ'' = Inr ''dQw4w9WgXcQ''"
  using extract_video_id_bare [of "''dQw4w9WgXcQ''" "[]" "[]" YOUTUBE_PATTERNS]
  by (simp add: extract_video_id_def is_id_char_def)

lemma render_hi: "render vid hi_segments = Printed (Plain ''[01:05] hi'')"
  by (simp add: render_def hi_segments_def format_eval chunk_transcript_def)

lemma fetch_english: "fetch_transcript (english segs) vid = ([Fetch vid], Inr segs)"
  by (simp add: fetch_transcript_def english_def)

text \<open>
  Claim C2. \<^const>\<open>save_to_cache\<close> never fails the pipeline: a failure to write the
  cache is swallowed, and the run goes on to format, chunk and print as after a
  write that went well. The code does this for a failure of the write itself
  (lemma \<open>main_write_failure_swallowed\<close>), but \<^verbatim>\<open>os.makedirs\<close> stands in front of the
  \<^verbatim>\<open>try\<close>: when the cache directory cannot be created, the \<^verbatim>\<open>OSError\<close> leaves
  \<^const>\<open>save_to_cache\<close>, \<^const>\<open>main\<close> reports an unexpected error and exits with code 1,
  although the transcript has been fetched. On the same input with a directory
  that can be created, or with a write that fails in \<^verbatim>\<open>open\<close>, the transcript is
  printed.
\<close>

theorem main_makedirs_failure:
  "main [''index.py'', ''dQw4w9WgXcQ''] (english hi_segments) 1700000000 1700000001
       ((reliable Map.empty)\<lparr>makedirs_fails := True\<rparr>)
     = (Failed (Unexpected OSError), (reliable Map.empty)\<lparr>makedirs_fails := True\<rparr>)
   \<and> exit_code (Failed (Unexpected OSError)) = Some 1
   \<and> main [''index.py'', ''dQw4w9WgXcQ''] (english hi_segments) 1700000000 1700000001
       (reliable Map.empty)
     = (Printed (Plain ''[01:05] hi''),
        reliable [''dQw4w9WgXcQ.json'' \<mapsto> Valid (cache_entry ''dQw4w9WgXcQ'' 1700000001 hi_segments)])
   \<and> main [''index.py'', ''dQw4w9WgXcQ''] (english hi_segments) 1700000000 1700000001
       ((reliable Map.empty)\<lparr>write_fails := Some OnOpen\<rparr>)
     = (Printed (Plain ''[01:05] hi''), (reliable Map.empty)\<lparr>write_fails := Some OnOpen\<rparr>)"
  by (simp add: main_def extract_rick transcript_with_cache_def get_cached_transcript_def
      fetch_english save_to_cache_def render_hi reliable_def exit_code_def)

end
